theory Spec2Isabelle
  imports Main "HOL-Library.Word"
begin

section \<open>safe\_system.c: a thread-safe system() for Cygwin\<close>

text \<open>
  The source file holds one function, \<^verbatim>\<open>safe_system\<close>, in two builds: the Cygwin build
  (lines 50-104) and the pass-through build for every other platform (lines 108-112).
  The Cygwin build is embedded statement by statement: a program counter names the source
  line about to run, a frame holds the locals of one call, and a world holds the three
  globals of the file together with what the call can reach outside the process (the files of
  the working directory and the calls it makes into the C library, Cygwin and Win32, kept
  as a trace). One call running alone is the sequential meaning of the function; several
  frames stepped in any order are the threads of the process.
\<close>

subsection \<open>C strings, sprintf and atoi\<close>

definition NUL :: char where
  "NUL = CHR 0x00"

text \<open>The string a \<^verbatim>\<open>char *\<close> denotes: the bytes before the first terminator.\<close>

definition cstr :: "char list \<Rightarrow> string" where
  "cstr bs = takeWhile (\<lambda>c. c \<noteq> NUL) bs"

definition strlen :: "char list \<Rightarrow> nat" where
  "strlen bs = length (cstr bs)"

text \<open>The conversion \<^verbatim>\<open>%d\<close> of printf.\<close>

fun dec_nat :: "nat \<Rightarrow> string" where
  "dec_nat n = (if n < 10 then [''0123456789'' ! n]
                else dec_nat (n div 10) @ [''0123456789'' ! (n mod 10)])"

definition dec :: "int \<Rightarrow> string" where
  "dec i = (if i < 0 then CHR ''-'' # dec_nat (nat (- i)) else dec_nat (nat i))"

text \<open>
  Writing a string and its terminator into a buffer at an offset, as \<^verbatim>\<open>sprintf\<close> and
  \<^verbatim>\<open>stpcpy\<close> do. The buffer is a list of as many bytes as were allocated; a write that
  does not fit has no value (the C program would write past the allocation).
\<close>

definition poke :: "char list \<Rightarrow> nat \<Rightarrow> string \<Rightarrow> char list option" where
  "poke b off s =
     (if off + length s + 1 \<le> length b
      then Some (take off b @ s @ NUL # drop (off + length s + 1) b)
      else None)"

definition isspace :: "char \<Rightarrow> bool" where
  "isspace c = (c \<in> set [CHR '' '', CHR 0x09, CHR 0x0A, CHR 0x0B, CHR 0x0C, CHR 0x0D])"

definition isdigit :: "char \<Rightarrow> bool" where
  "isdigit c = (c \<in> set ''0123456789'')"

definition digit_val :: "char \<Rightarrow> nat" where
  "digit_val c = of_char c - 48"

fun digits_val :: "nat \<Rightarrow> char list \<Rightarrow> nat" where
  "digits_val acc [] = acc"
| "digits_val acc (c # cs) =
     (if isdigit c then digits_val (10 * acc + digit_val c) cs else acc)"

text \<open>
  \<^verbatim>\<open>atoi(s)\<close> is \<^verbatim>\<open>(int) strtol(s, NULL, 10)\<close>: white space is skipped, a sign is
  read, the digits are accumulated up to the first byte that is not a digit, the
  \<^verbatim>\<open>long\<close> (64 bits on x86\_64 Cygwin, for which line 44 says the code was written)
  saturates, and the conversion to \<^verbatim>\<open>int\<close> keeps the low 32 bits. The list is the
  memory from the pointer on; a number that runs to the end of the list stops there.
\<close>

definition strtol10 :: "char list \<Rightarrow> int" where
  "strtol10 s =
     (let s1 = dropWhile isspace s in
      case s1 of
        [] \<Rightarrow> 0
      | c # r \<Rightarrow>
          if c = CHR ''-'' then max (- 9223372036854775808) (- int (digits_val 0 r))
          else if c = CHR ''+'' then min 9223372036854775807 (int (digits_val 0 r))
          else min 9223372036854775807 (int (digits_val 0 s1)))"

definition atoi :: "char list \<Rightarrow> int" where
  "atoi s = sint (word_of_int (strtol10 s) :: 32 word)"

subsection \<open>The world outside the function\<close>

text \<open>
  Win32 handles. \<^verbatim>\<open>OpenProcess\<close> returns \<^verbatim>\<open>NULL\<close> when it fails;
  \<^verbatim>\<open>INVALID_HANDLE_VALUE\<close> is the value \<^verbatim>\<open>(HANDLE)-1\<close> that \<^verbatim>\<open>CreateFile\<close>
  returns on failure.
\<close>

datatype HANDLE = NULL_HANDLE | INVALID_HANDLE_VALUE | Handle nat

datatype access_right = SYNCHRONIZE | PROCESS_TERMINATE | PROCESS_VM_READ | PROCESS_VM_WRITE

datatype timeout = INFINITE | Millis nat

datatype event =
    InitializeCriticalSection
  | Usleep nat
  | EnterCriticalSection
  | LeaveCriticalSection
  | Fprintf_stderr string
  | System string
  | Fopen string string
  | Fread nat nat
  | Fclose
  | Remove string
  | Cygwin_internal_pid_to_winpid int
  | OpenProcess "access_right list" bool "32 word"
  | WaitForSingleObject HANDLE timeout
  | CloseHandle HANDLE

type_synonym files = "string \<Rightarrow> string option"

text \<open>
  What the platform answers: \<^verbatim>\<open>system\<close> gives an exit status and leaves the working
  directory changed (the shell and the task it runs write files); the stack holds
  arbitrary bytes where \<^verbatim>\<open>alloca\<close> allocates; Cygwin translates a pid; Windows opens
  a process or does not; a process exits or does not.
\<close>

record env =
  system_fn :: "string \<Rightarrow> files \<Rightarrow> int \<times> files"
  stack :: "nat \<Rightarrow> char"
  pid_to_winpid :: "int \<Rightarrow> 32 word"
  open_process :: "32 word \<Rightarrow> nat option"
  exits :: "nat \<Rightarrow> bool"

text \<open>
  The globals of lines 46-48, the owner of the critical section, the number of times the
  critical section has been initialised, the files, and the calls made so far, each with
  the thread that made it.
\<close>

record world =
  initializing :: "32 word"
  usecount :: "32 word"
  cs_inits :: nat
  owner :: "nat option"
  fs :: files
  trace :: "(nat \<times> event) list"

datatype pc =
    L54 | L55 | L56 | L56_store | L58 | L59 | L63 | L66 | L69
  | L72 | L72_store | L73 | L75 | L79 | L81 | L82
  | L85 | L86 | L88 | L89 | L90 | L91 | L96 | L97 | L98 | L100 | L101 | L103
  | Returned | Undefined_behaviour

text \<open>
  The locals of one call. \<open>fp\<close> is the \<^verbatim>\<open>FILE *f\<close> of line 85 (\<open>None\<close> is the null
  pointer, \<open>Some\<close> holds what the stream will read), \<open>hdl\<close> the \<^verbatim>\<open>HANDLE h\<close> of line
  97, \<open>tmp\<close> the register between the load and the store of a \<^verbatim>\<open>++\<close> on a volatile,
  \<open>ptr\<close> the offset into \<open>buf\<close> that \<^verbatim>\<open>stpcpy\<close> returns, \<open>retval\<close> the value returned.
\<close>

record frame =
  pc :: pc
  cmd :: "char list"
  pidfilename :: "char list"
  buf :: "char list"
  ptr :: nat
  tmp :: "32 word"
  ret :: int
  fp :: "string option"
  pid :: int
  winpid :: "32 word"
  hdl :: HANDLE
  retval :: int

definition entry :: "char list \<Rightarrow> frame" where
  "entry c = \<lparr>pc = L54, cmd = c, pidfilename = [], buf = [], ptr = 0, tmp = 0, ret = 0,
              fp = None, pid = 0, winpid = 0, hdl = NULL_HANDLE, retval = 0\<rparr>"

definition alloca :: "env \<Rightarrow> nat \<Rightarrow> char list" where
  "alloca e n = map (stack e) [0..<n]"

definition log :: "nat \<Rightarrow> event \<Rightarrow> world \<Rightarrow> world" where
  "log t ev w = w\<lparr>trace := trace w @ [(t, ev)]\<rparr>"

text \<open>
  The native primitive \<^verbatim>\<open>system\<close>, called by thread \<open>t\<close> with the command \<open>a\<close>: the
  platform runs the command, the files change as the platform says, the exit status comes
  back.
\<close>

definition system_call :: "env \<Rightarrow> nat \<Rightarrow> string \<Rightarrow> world \<Rightarrow> int \<times> world" where
  "system_call e t a w =
     (let r = system_fn e a (fs w) in (fst r, log t (System a) (w\<lparr>fs := snd r\<rparr>)))"

subsection \<open>The Cygwin build, line by line\<close>

text \<open>
  One step of thread \<open>t\<close>: the statement at its program counter. A thread that waits (for
  the critical section at line 69, for the process at line 100) stays where it is.
\<close>

definition stmt :: "env \<Rightarrow> nat \<Rightarrow> world \<times> frame \<Rightarrow> world \<times> frame" where
  "stmt e t c =
    (let w = fst c; fr = snd c in
     case pc fr of
       L54 \<Rightarrow>
         if initializing w = 0 then (w\<lparr>initializing := 1\<rparr>, fr\<lparr>pc := L55\<rparr>)
         else (w, fr\<lparr>pc := L58\<rparr>)
     | L55 \<Rightarrow>
         (log t InitializeCriticalSection (w\<lparr>cs_inits := cs_inits w + 1, owner := None\<rparr>),
          fr\<lparr>pc := L56\<rparr>)
     | L56 \<Rightarrow> (w, fr\<lparr>tmp := initializing w, pc := L56_store\<rparr>)
     | L56_store \<Rightarrow> (w\<lparr>initializing := tmp fr + 1\<rparr>, fr\<lparr>pc := L63\<rparr>)
     | L58 \<Rightarrow>
         if initializing w = 1 then (w, fr\<lparr>pc := L59\<rparr>) else (w, fr\<lparr>pc := L63\<rparr>)
     | L59 \<Rightarrow> (log t (Usleep 10000) w, fr\<lparr>pc := L58\<rparr>)
     | L63 \<Rightarrow> (w, fr\<lparr>pidfilename := alloca e 64, pc := L66\<rparr>)
     | L66 \<Rightarrow> (w, fr\<lparr>buf := alloca e (strlen (cmd fr) + 128), pc := L69\<rparr>)
     | L69 \<Rightarrow>
         if cs_inits w = 0 then (w, fr\<lparr>pc := Undefined_behaviour\<rparr>)
         else if owner w = None
           then (log t EnterCriticalSection (w\<lparr>owner := Some t\<rparr>), fr\<lparr>pc := L72\<rparr>)
         else (w, fr)
     | L72 \<Rightarrow> (w, fr\<lparr>tmp := usecount w, pc := L72_store\<rparr>)
     | L72_store \<Rightarrow>
         (case poke (pidfilename fr) 0 (''_yafu_system_.'' @ dec (sint (tmp fr))) of
            None \<Rightarrow> (w\<lparr>usecount := tmp fr + 1\<rparr>, fr\<lparr>pc := Undefined_behaviour\<rparr>)
          | Some b \<Rightarrow> (w\<lparr>usecount := tmp fr + 1\<rparr>, fr\<lparr>pidfilename := b, pc := L73\<rparr>))
     | L73 \<Rightarrow>
         (case poke (buf fr) 0 (cstr (cmd fr)) of
            None \<Rightarrow> (w, fr\<lparr>pc := Undefined_behaviour\<rparr>)
          | Some b \<Rightarrow> (w, fr\<lparr>buf := b, ptr := strlen (cmd fr), pc := L75\<rparr>))
     | L75 \<Rightarrow>
         (case poke (buf fr) (ptr fr) ('' & echo -n $! > '' @ cstr (pidfilename fr)) of
            None \<Rightarrow> (w, fr\<lparr>pc := Undefined_behaviour\<rparr>)
          | Some b \<Rightarrow> (w, fr\<lparr>buf := b, pc := L79\<rparr>))
     | L79 \<Rightarrow>
         (log t (Fprintf_stderr (''*SYSTEM* >>'' @ cstr (buf fr) @ ''<<'' @ [CHR 0x0A])) w,
          fr\<lparr>pc := L81\<rparr>)
     | L81 \<Rightarrow>
         (let r = system_call e t (cstr (buf fr)) w in (snd r, fr\<lparr>ret := fst r, pc := L82\<rparr>))
     | L82 \<Rightarrow> (log t LeaveCriticalSection (w\<lparr>owner := None\<rparr>), fr\<lparr>pc := L85\<rparr>)
     | L85 \<Rightarrow>
         (log t (Fopen (cstr (pidfilename fr)) ''r'') w,
          fr\<lparr>fp := fs w (cstr (pidfilename fr)), pc := L86\<rparr>)
     | L86 \<Rightarrow>
         if fp fr = None then (w, fr\<lparr>retval := - 1, pc := Returned\<rparr>)
         else (w, fr\<lparr>pc := L88\<rparr>)
     | L88 \<Rightarrow>
         (case fp fr of
            None \<Rightarrow> (w, fr\<lparr>pc := Undefined_behaviour\<rparr>)
          | Some content \<Rightarrow>
              let d = take 80 content in
              if length d \<le> length (buf fr)
              then (log t (Fread 1 80) w, fr\<lparr>buf := d @ drop (length d) (buf fr), pc := L89\<rparr>)
              else (w, fr\<lparr>pc := Undefined_behaviour\<rparr>))
     | L89 \<Rightarrow> (log t Fclose w, fr\<lparr>pc := L90\<rparr>)
     | L90 \<Rightarrow>
         (log t (Remove (cstr (pidfilename fr))) (w\<lparr>fs := (fs w)(cstr (pidfilename fr) := None)\<rparr>),
          fr\<lparr>pc := L91\<rparr>)
     | L91 \<Rightarrow> (w, fr\<lparr>pid := atoi (buf fr), pc := L96\<rparr>)
     | L96 \<Rightarrow>
         (log t (Cygwin_internal_pid_to_winpid (pid fr)) w,
          fr\<lparr>winpid := pid_to_winpid e (pid fr), pc := L97\<rparr>)
     | L97 \<Rightarrow>
         (log t (OpenProcess [SYNCHRONIZE] False (winpid fr)) w,
          fr\<lparr>hdl := (case open_process e (winpid fr) of None \<Rightarrow> NULL_HANDLE | Some n \<Rightarrow> Handle n),
             pc := L98\<rparr>)
     | L98 \<Rightarrow>
         if hdl fr = INVALID_HANDLE_VALUE then (w, fr\<lparr>retval := - 1, pc := Returned\<rparr>)
         else (w, fr\<lparr>pc := L100\<rparr>)
     | L100 \<Rightarrow>
         (case hdl fr of
            Handle n \<Rightarrow>
              if exits e n then (log t (WaitForSingleObject (hdl fr) INFINITE) w, fr\<lparr>pc := L101\<rparr>)
              else (w, fr)
          | _ \<Rightarrow> (log t (WaitForSingleObject (hdl fr) INFINITE) w, fr\<lparr>pc := L101\<rparr>))
     | L101 \<Rightarrow> (log t (CloseHandle (hdl fr)) w, fr\<lparr>pc := L103\<rparr>)
     | L103 \<Rightarrow> (w, fr\<lparr>retval := ret fr, pc := Returned\<rparr>)
     | Returned \<Rightarrow> (w, fr)
     | Undefined_behaviour \<Rightarrow> (w, fr))"

definition finished :: "world \<times> frame \<Rightarrow> bool" where
  "finished c = (pc (snd c) = Returned \<or> pc (snd c) = Undefined_behaviour)"

text \<open>
  One call run to its end by thread \<open>t\<close> with no other thread stepping: \<open>None\<close> when it
  never returns (it spins at lines 58-60, or waits for ever at line 69 or line 100).
\<close>

partial_function (option) run :: "env \<Rightarrow> nat \<Rightarrow> world \<times> frame \<Rightarrow> (world \<times> frame) option" where
  "run e t c = (if finished c then Some c else run e t (stmt e t c))"

definition safe_system :: "env \<Rightarrow> nat \<Rightarrow> char list \<Rightarrow> world \<Rightarrow> (world \<times> frame) option" where
  "safe_system e t c w = run e t (w, entry c)"

text \<open>
  Threads: a pool of frames over one world. A schedule is the list of the threads that
  step, in order; \<open>exec\<close> runs a schedule.
\<close>

definition step_thread :: "env \<Rightarrow> world \<times> frame list \<Rightarrow> nat \<Rightarrow> world \<times> frame list" where
  "step_thread e s t =
     (if t < length (snd s)
      then (let c = stmt e t (fst s, snd s ! t) in (fst c, (snd s)[t := snd c]))
      else s)"

definition exec :: "env \<Rightarrow> nat list \<Rightarrow> world \<times> frame list \<Rightarrow> world \<times> frame list" where
  "exec e sched s = foldl (step_thread e) s sched"

subsection \<open>The build for every other platform (lines 108-112)\<close>

definition safe_system_native :: "env \<Rightarrow> nat \<Rightarrow> char list \<Rightarrow> world \<Rightarrow> int \<times> world" where
  "safe_system_native e t c w = system_call e t (cstr c) w"

subsection \<open>One call in closed form\<close>

text \<open>
  The terms below say what one call computes; the lemmas of the next sections show that
  running the statements of the function gives exactly these. The name of the handoff
  file and the command handed to the shell, for the counter value \<open>n\<close>:
\<close>

definition pidfile_name :: "32 word \<Rightarrow> string" where
  "pidfile_name n = ''_yafu_system_.'' @ dec (sint n)"

definition augmented :: "char list \<Rightarrow> 32 word \<Rightarrow> string" where
  "augmented c n = cstr c @ '' & echo -n $! > '' @ pidfile_name n"

text \<open>The two buffers once lines 72-75 have written them.\<close>

definition name_buf :: "env \<Rightarrow> 32 word \<Rightarrow> char list" where
  "name_buf e n = pidfile_name n @ NUL # drop (length (pidfile_name n) + 1) (alloca e 64)"

definition cmd_buf :: "env \<Rightarrow> char list \<Rightarrow> 32 word \<Rightarrow> char list" where
  "cmd_buf e c n =
     augmented c n @ NUL # drop (length (augmented c n) + 1) (alloca e (strlen c + 128))"

text \<open>The world after lines 54-60 and after lines 69-82.\<close>

definition after_init :: "nat \<Rightarrow> world \<Rightarrow> world" where
  "after_init t w =
     (if initializing w = 0
      then log t InitializeCriticalSection (w\<lparr>initializing := 2, cs_inits := cs_inits w + 1, owner := None\<rparr>)
      else w)"

definition submitted :: "env \<Rightarrow> nat \<Rightarrow> char list \<Rightarrow> world \<Rightarrow> world" where
  "submitted e t c w =
     w\<lparr>usecount := usecount w + 1, owner := None,
       fs := snd (system_fn e (augmented c (usecount w)) (fs w)),
       trace := trace w @
         [(t, EnterCriticalSection),
          (t, Fprintf_stderr (''*SYSTEM* >>'' @ augmented c (usecount w) @ ''<<'' @ [CHR 0x0A])),
          (t, System (augmented c (usecount w))),
          (t, LeaveCriticalSection)]\<rparr>"

text \<open>
  A call gets through initialisation and into the critical section when the flag is not
  stuck at 1, the critical section exists once lines 54-60 are done, and nobody holds it.
\<close>

definition ready :: "nat \<Rightarrow> world \<Rightarrow> bool" where
  "ready t w = (initializing w \<noteq> 1 \<and> cs_inits (after_init t w) \<noteq> 0 \<and> owner (after_init t w) = None)"

text \<open>
  What \<^verbatim>\<open>fopen\<close> finds under the name of this call once the shell is back, and the
  exit status of that shell.
\<close>

definition handoff :: "env \<Rightarrow> char list \<Rightarrow> world \<Rightarrow> string option" where
  "handoff e c w = snd (system_fn e (augmented c (usecount w)) (fs w)) (pidfile_name (usecount w))"

definition status :: "env \<Rightarrow> char list \<Rightarrow> world \<Rightarrow> int" where
  "status e c w = fst (system_fn e (augmented c (usecount w)) (fs w))"

text \<open>The command buffer after line 88 has read the file into it, and the pid of line 91.\<close>

definition read_buf :: "env \<Rightarrow> char list \<Rightarrow> 32 word \<Rightarrow> string \<Rightarrow> char list" where
  "read_buf e c n content = take 80 content @ drop (length (take 80 content)) (cmd_buf e c n)"

definition parsed_pid :: "env \<Rightarrow> char list \<Rightarrow> world \<Rightarrow> string \<Rightarrow> int" where
  "parsed_pid e c w content = atoi (read_buf e c (usecount w) content)"

definition opened :: "env \<Rightarrow> int \<Rightarrow> HANDLE" where
  "opened e p = (case open_process e (pid_to_winpid e p) of None \<Rightarrow> NULL_HANDLE | Some n \<Rightarrow> Handle n)"

definition waits_forever :: "env \<Rightarrow> HANDLE \<Rightarrow> bool" where
  "waits_forever e h = (case h of Handle n \<Rightarrow> \<not> exits e n | _ \<Rightarrow> False)"

text \<open>The world when the call returns at line 87, reaches line 100, returns at line 103.\<close>

definition bailed :: "env \<Rightarrow> nat \<Rightarrow> char list \<Rightarrow> world \<Rightarrow> world" where
  "bailed e t c w = log t (Fopen (pidfile_name (usecount w)) ''r'') (submitted e t c (after_init t w))"

definition recovered :: "env \<Rightarrow> nat \<Rightarrow> char list \<Rightarrow> world \<Rightarrow> string \<Rightarrow> world" where
  "recovered e t c w content =
     (let w2 = submitted e t c (after_init t w); nm = pidfile_name (usecount w);
          p = parsed_pid e c w content in
      w2\<lparr>fs := (fs w2)(nm := None),
         trace := trace w2 @
           [(t, Fopen nm ''r''), (t, Fread 1 80), (t, Fclose), (t, Remove nm),
            (t, Cygwin_internal_pid_to_winpid p),
            (t, OpenProcess [SYNCHRONIZE] False (pid_to_winpid e p))]\<rparr>)"

definition completed :: "env \<Rightarrow> nat \<Rightarrow> char list \<Rightarrow> world \<Rightarrow> string \<Rightarrow> world" where
  "completed e t c w content =
     (let w3 = recovered e t c w content; h = opened e (parsed_pid e c w content) in
      w3\<lparr>trace := trace w3 @ [(t, WaitForSingleObject h INFINITE), (t, CloseHandle h)]\<rparr>)"

text \<open>What the caller sees of a call.\<close>

datatype outcome = Returns int world | Undefined world | Hangs

definition outcome_of :: "(world \<times> frame) option \<Rightarrow> outcome" where
  "outcome_of r =
     (case r of
        None \<Rightarrow> Hangs
      | Some c \<Rightarrow> if pc (snd c) = Returned then Returns (retval (snd c)) (fst c) else Undefined (fst c))"

definition call :: "env \<Rightarrow> nat \<Rightarrow> char list \<Rightarrow> world \<Rightarrow> outcome" where
  "call e t c w = outcome_of (safe_system e t c w)"

text \<open>The calls a world has seen since an earlier one, and the commands given to the shell.\<close>

definition new_events :: "world \<Rightarrow> world \<Rightarrow> event list" where
  "new_events w w' = map snd (drop (length (trace w)) (trace w'))"

definition init_events :: "world \<Rightarrow> event list" where
  "init_events w = (if initializing w = 0 then [InitializeCriticalSection] else [])"

definition systems :: "event list \<Rightarrow> string list" where
  "systems evs = concat (map (\<lambda>ev. case ev of System a \<Rightarrow> [a] | _ \<Rightarrow> []) evs)"

definition file_events :: "event list \<Rightarrow> event list" where
  "file_events evs =
     filter (\<lambda>ev. case ev of Fopen n m \<Rightarrow> True | Fread s k \<Rightarrow> True | Fclose \<Rightarrow> True
                   | Remove n \<Rightarrow> True | _ \<Rightarrow> False) evs"

text \<open>\<open>a\<close> happens before the first \<open>b\<close>.\<close>

definition before :: "event \<Rightarrow> event \<Rightarrow> event list \<Rightarrow> bool" where
  "before a b evs = (a \<in> set (takeWhile (\<lambda>x. x \<noteq> b) evs))"

text \<open>A bounded number of steps of one thread, and the states of the loop of lines 58-60.\<close>

fun iter :: "env \<Rightarrow> nat \<Rightarrow> nat \<Rightarrow> world \<times> frame \<Rightarrow> world \<times> frame" where
  "iter e t 0 c = c"
| "iter e t (Suc n) c = (if finished c then c else iter e t n (stmt e t c))"

definition spinning :: "world \<times> frame \<Rightarrow> bool" where
  "spinning c = (initializing (fst c) = 1 \<and> (pc (snd c) = L54 \<or> pc (snd c) = L58 \<or> pc (snd c) = L59))"

subsection \<open>Example platforms\<close>

text \<open>
  A fresh process (the globals are zero, no file exists) and three platforms: one where
  the shell writes pid 1234 into the file of call 0 and the task can be opened and exits,
  one where the shell fails and writes nothing, one where the task cannot be opened.
\<close>

definition fresh :: world where
  "fresh = \<lparr>initializing = 0, usecount = 0, cs_inits = 0, owner = None, fs = (\<lambda>n. None), trace = []\<rparr>"

definition platform_ok :: env where
  "platform_ok =
     \<lparr>system_fn = (\<lambda>a files. (0, files(''_yafu_system_.0'' \<mapsto> ''1234''))),
      stack = (\<lambda>i. CHR ''#''),
      pid_to_winpid = word_of_int,
      open_process = (\<lambda>d. Some 7),
      exits = (\<lambda>n. True)\<rparr>"

definition platform_no_file :: env where
  "platform_no_file = platform_ok\<lparr>system_fn := (\<lambda>a files. (127, files))\<rparr>"

definition platform_task_gone :: env where
  "platform_task_gone = platform_ok\<lparr>open_process := (\<lambda>d. None)\<rparr>"

subsection \<open>Threads\<close>

text \<open>
  Where a thread is: between its successful compare-and-exchange and its store of 2
  (\<open>electing\<close>), anywhere in lines 54-60 (\<open>in_init\<close>), between entering and leaving the
  critical section (\<open>in_cs\<close>), past the write of its file name at line 72 (\<open>named\<close>), past
  its read of the counter (\<open>taken\<close>), past line 69 (\<open>entered\<close>).
\<close>

definition electing :: "pc \<Rightarrow> bool" where
  "electing p = (p = L55 \<or> p = L56 \<or> p = L56_store)"

definition in_init :: "pc \<Rightarrow> bool" where
  "in_init p = (p = L54 \<or> p = L55 \<or> p = L56 \<or> p = L56_store \<or> p = L58 \<or> p = L59)"

definition in_cs :: "pc \<Rightarrow> bool" where
  "in_cs p = (p = L72 \<or> p = L72_store \<or> p = L73 \<or> p = L75 \<or> p = L79 \<or> p = L81 \<or> p = L82)"

definition named :: "pc \<Rightarrow> bool" where
  "named p = (\<not> in_init p \<and> p \<noteq> L63 \<and> p \<noteq> L66 \<and> p \<noteq> L69 \<and> p \<noteq> L72 \<and> p \<noteq> L72_store
              \<and> p \<noteq> Undefined_behaviour)"

definition taken :: "pc \<Rightarrow> bool" where
  "taken p = (named p \<or> p = L72_store)"

definition entered :: "pc \<Rightarrow> bool" where
  "entered p = (taken p \<or> p = L72)"

text \<open>
  The threads in the order in which they entered the critical section, the number of
  calls to \<^verbatim>\<open>InitializeCriticalSection\<close>, and the sleeps of the waiting loop, all read off
  the trace. A process starts with the globals at zero and nothing done yet.
\<close>

definition acquired :: "world \<Rightarrow> nat list" where
  "acquired w = map fst (filter (\<lambda>x. snd x = EnterCriticalSection) (trace w))"

definition inits :: "world \<Rightarrow> nat" where
  "inits w = length (filter (\<lambda>x. snd x = InitializeCriticalSection) (trace w))"

definition sleeps_10ms :: "world \<Rightarrow> bool" where
  "sleeps_10ms w = (\<forall>x \<in> set (trace w). \<forall>k. snd x = Usleep k \<longrightarrow> k = 10000)"

definition boot :: "world \<Rightarrow> bool" where
  "boot w = (initializing w = 0 \<and> cs_inits w = 0 \<and> owner w = None \<and> trace w = [])"

text \<open>
  What holds of the flag, the critical section and the threads at every moment of every
  run from a start: the flag is 0, 1 or 2 and says how far the initialisation is
  (\<open>glob_init\<close>, \<open>thr_init\<close>), at most one thread is initialising (\<open>one_elected\<close>), the
  buffers of a thread hold what the lines it has run wrote (\<open>frame_ok\<close>), the owner of the
  critical section is the one thread inside it (\<open>inv_lock\<close>), and the counter has been
  incremented once for each thread that entered, but the one that may still be at line 72
  (\<open>pending\<close>, \<open>inv_count\<close>).
\<close>

definition glob_init :: "world \<Rightarrow> bool" where
  "glob_init w =
     ((initializing w = 0 \<or> initializing w = 1 \<or> initializing w = 2)
      \<and> cs_inits w \<le> 1
      \<and> (initializing w = 0 \<longrightarrow> cs_inits w = 0)
      \<and> (initializing w = 2 \<longrightarrow> cs_inits w = 1))"

definition thr_init :: "world \<Rightarrow> frame \<Rightarrow> bool" where
  "thr_init w fr =
     ((initializing w = 0 \<longrightarrow> pc fr = L54)
      \<and> (electing (pc fr) \<longrightarrow> initializing w = 1)
      \<and> (\<not> in_init (pc fr) \<longrightarrow> initializing w = 2)
      \<and> (pc fr = L55 \<longrightarrow> cs_inits w = 0)
      \<and> (pc fr = L56 \<or> pc fr = L56_store \<longrightarrow> cs_inits w = 1)
      \<and> (pc fr = L56_store \<longrightarrow> tmp fr = 1))"

definition one_elected :: "frame list \<Rightarrow> bool" where
  "one_elected frs =
     (\<forall>i<length frs. \<forall>j<length frs. electing (pc (frs ! i)) \<and> electing (pc (frs ! j)) \<longrightarrow> i = j)"

definition inv_init :: "world \<times> frame list \<Rightarrow> bool" where
  "inv_init s =
     (glob_init (fst s) \<and> (\<forall>j<length (snd s). thr_init (fst s) (snd s ! j)) \<and> one_elected (snd s))"

definition frame_ok :: "env \<Rightarrow> frame \<Rightarrow> bool" where
  "frame_ok e fr =
     (pc fr \<noteq> Undefined_behaviour
      \<and> (pc fr = L66 \<or> pc fr = L69 \<or> pc fr = L72 \<or> pc fr = L72_store \<longrightarrow> pidfilename fr = alloca e 64)
      \<and> (pc fr = L69 \<or> pc fr = L72 \<or> pc fr = L72_store \<or> pc fr = L73 \<longrightarrow>
            buf fr = alloca e (strlen (cmd fr) + 128))
      \<and> (named (pc fr) \<longrightarrow> pidfilename fr = name_buf e (tmp fr))
      \<and> (pc fr = L75 \<longrightarrow>
            buf fr = cstr (cmd fr) @ NUL # drop (strlen (cmd fr) + 1) (alloca e (strlen (cmd fr) + 128))
            \<and> ptr fr = strlen (cmd fr))
      \<and> (pc fr = L79 \<or> pc fr = L81 \<or> pc fr = L82 \<or> pc fr = L85 \<or> pc fr = L86 \<or> pc fr = L88 \<longrightarrow>
            buf fr = cmd_buf e (cmd fr) (tmp fr))
      \<and> (pc fr = L88 \<longrightarrow> fp fr \<noteq> None))"

definition inv_lock :: "world \<times> frame list \<Rightarrow> bool" where
  "inv_lock s =
     ((\<forall>j<length (snd s). in_cs (pc (snd s ! j)) \<longrightarrow> owner (fst s) = Some j)
      \<and> (\<forall>t. owner (fst s) = Some t \<longrightarrow> t < length (snd s) \<and> in_cs (pc (snd s ! t))))"

definition pending :: "world \<times> frame list \<Rightarrow> bool" where
  "pending s =
     (acquired (fst s) \<noteq> [] \<and>
      (pc (snd s ! last (acquired (fst s))) = L72 \<or> pc (snd s ! last (acquired (fst s))) = L72_store))"

definition inv_count :: "32 word \<Rightarrow> world \<times> frame list \<Rightarrow> bool" where
  "inv_count c0 s =
     (distinct (acquired (fst s))
      \<and> (\<forall>t \<in> set (acquired (fst s)). t < length (snd s))
      \<and> (\<forall>j<length (snd s). entered (pc (snd s ! j)) \<longleftrightarrow> j \<in> set (acquired (fst s)))
      \<and> (\<forall>k<length (acquired (fst s)).
            taken (pc (snd s ! (acquired (fst s) ! k))) \<longrightarrow>
            tmp (snd s ! (acquired (fst s) ! k)) = c0 + of_nat k)
      \<and> (\<forall>j<length (snd s). in_cs (pc (snd s ! j)) \<longrightarrow>
            acquired (fst s) \<noteq> [] \<and> last (acquired (fst s)) = j)
      \<and> usecount (fst s) = c0 + of_nat (length (acquired (fst s)) - (if pending s then 1 else 0)))"

definition inv_all :: "env \<Rightarrow> 32 word \<Rightarrow> world \<times> frame list \<Rightarrow> bool" where
  "inv_all e c0 s =
     (inv_init s \<and> (\<forall>j<length (snd s). frame_ok e (snd s ! j)) \<and> inv_lock s \<and> inv_count c0 s)"

definition trace_ok :: "world \<Rightarrow> bool" where
  "trace_ok w = (inits w = cs_inits w \<and> sleeps_10ms w)"

text \<open>
  Two calls, the first run up to line 85 and then the second up to line 73. The world a
  call leaves behind, whatever its outcome; a process in which one thread has made
  2147483647 calls one after the other, on the platform where the shell writes no file; and
  what holds of the world between such calls.
\<close>

definition two_calls :: "world \<times> frame list" where
  "two_calls =
     exec platform_ok [0, 0, 0, 0, 0, 0, 0, 0, 0, 0, 0, 0, 0, 0, 1, 1, 1, 1, 1, 1, 1]
       (fresh, map entry [''a'', ''b''])"

definition after_call :: "env \<Rightarrow> nat \<Rightarrow> char list \<Rightarrow> world \<Rightarrow> world" where
  "after_call e t c w =
     (case call e t c w of Returns r w' \<Rightarrow> w' | Undefined w' \<Rightarrow> w' | Hangs \<Rightarrow> w)"

definition near_overflow :: world where
  "near_overflow = (after_call platform_no_file 0 ''ls'' ^^ 2147483647) fresh"

definition idle :: "world \<Rightarrow> bool" where
  "idle w =
     (((initializing w = 0 \<and> cs_inits w = 0) \<or> (initializing w = 2 \<and> cs_inits w = 1))
      \<and> owner w = None \<and> fs w = (\<lambda>n. None))"

text \<open>
  What one thread has done so far. \<open>events_of\<close> picks the calls of one thread out of the
  trace. From \<^verbatim>\<open>EnterCriticalSection\<close> on a call makes the calls of \<open>script\<close>, in this
  order and with these arguments; \<open>progress\<close> says how many of them a thread at a given line
  has made (a thread that returned at line 87 has made five, one that returned at line 103
  all twelve). Before that it has only initialised the critical section or slept.
\<close>

definition is_init_event :: "event \<Rightarrow> bool" where
  "is_init_event ev = (ev = InitializeCriticalSection \<or> ev = Usleep 10000)"

definition events_of :: "nat \<Rightarrow> world \<Rightarrow> event list" where
  "events_of j w = map snd (filter (\<lambda>x. fst x = j) (trace w))"

definition script :: "frame \<Rightarrow> event list" where
  "script fr =
     [EnterCriticalSection,
      Fprintf_stderr (''*SYSTEM* >>'' @ cstr (cmd fr) @ '' & echo -n $! > '' @ cstr (pidfilename fr)
                        @ ''<<'' @ [CHR 0x0A]),
      System (cstr (cmd fr) @ '' & echo -n $! > '' @ cstr (pidfilename fr)),
      LeaveCriticalSection,
      Fopen (cstr (pidfilename fr)) ''r'',
      Fread 1 80,
      Fclose,
      Remove (cstr (pidfilename fr)),
      Cygwin_internal_pid_to_winpid (pid fr),
      OpenProcess [SYNCHRONIZE] False (winpid fr),
      WaitForSingleObject (hdl fr) INFINITE,
      CloseHandle (hdl fr)]"

definition progress :: "frame \<Rightarrow> nat" where
  "progress fr =
     (case pc fr of
        L72 \<Rightarrow> 1 | L72_store \<Rightarrow> 1 | L73 \<Rightarrow> 1 | L75 \<Rightarrow> 1 | L79 \<Rightarrow> 1
      | L81 \<Rightarrow> 2 | L82 \<Rightarrow> 3 | L85 \<Rightarrow> 4 | L86 \<Rightarrow> 5 | L88 \<Rightarrow> 5 | L89 \<Rightarrow> 6 | L90 \<Rightarrow> 7
      | L91 \<Rightarrow> 8 | L96 \<Rightarrow> 8 | L97 \<Rightarrow> 9 | L98 \<Rightarrow> 10 | L100 \<Rightarrow> 10 | L101 \<Rightarrow> 11 | L103 \<Rightarrow> 12
      | Returned \<Rightarrow> (if fp fr = None then 5 else 12)
      | _ \<Rightarrow> 0)"

text \<open>
  What the locals hold once the file is open: the stream is there from line 88 on, the
  command buffer holds the bytes read over the augmented command from line 89 to line 91
  (\<open>reading\<close>), and from line 96 on (\<open>parsed\<close>) the pid is what \<^verbatim>\<open>atoi\<close> made of that
  buffer, the Windows pid its translation and the handle what \<^verbatim>\<open>OpenProcess\<close> gave for
  it. \<open>hist\<close> says that the calls of a thread are an initial segment of its script, and
  \<open>inv_hist\<close> that this holds of every thread.
\<close>

definition reading :: "pc \<Rightarrow> bool" where
  "reading p = (p = L89 \<or> p = L90 \<or> p = L91)"

definition parsed :: "pc \<Rightarrow> bool" where
  "parsed p = (p = L96 \<or> p = L97 \<or> p = L98 \<or> p = L100 \<or> p = L101 \<or> p = L103)"

definition frame_data :: "env \<Rightarrow> frame \<Rightarrow> bool" where
  "frame_data e fr =
     ((pc fr = L88 \<or> reading (pc fr) \<or> parsed (pc fr) \<longrightarrow> fp fr \<noteq> None)
      \<and> (reading (pc fr) \<longrightarrow> buf fr = read_buf e (cmd fr) (tmp fr) (the (fp fr)))
      \<and> (parsed (pc fr) \<or> (pc fr = Returned \<and> fp fr \<noteq> None) \<longrightarrow>
            pid fr = atoi (read_buf e (cmd fr) (tmp fr) (the (fp fr))))
      \<and> (parsed (pc fr) \<and> pc fr \<noteq> L96 \<or> (pc fr = Returned \<and> fp fr \<noteq> None) \<longrightarrow>
            winpid fr = pid_to_winpid e (pid fr))
      \<and> (parsed (pc fr) \<and> pc fr \<noteq> L96 \<and> pc fr \<noteq> L97 \<or> (pc fr = Returned \<and> fp fr \<noteq> None) \<longrightarrow>
            hdl fr = opened e (pid fr)))"

definition hist :: "nat \<Rightarrow> world \<Rightarrow> frame \<Rightarrow> bool" where
  "hist j w fr = (dropWhile is_init_event (events_of j w) = take (progress fr) (script fr))"

definition inv_hist :: "env \<Rightarrow> world \<times> frame list \<Rightarrow> bool" where
  "inv_hist e s =
     ((\<forall>j<length (snd s). frame_data e (snd s ! j) \<and> hist j (fst s) (snd s ! j))
      \<and> (\<forall>x \<in> set (trace (fst s)). fst x < length (snd s)))"

text \<open>
  The number of statements a call runs before it is at line 100, and one call run for 24
  statements, up to its wait.
\<close>

definition steps_to_wait :: "world \<Rightarrow> nat" where
  "steps_to_wait w = (if initializing w = 0 then 23 else 21)"

definition one_call :: "world \<times> frame list" where
  "one_call = exec platform_ok (replicate 24 0) (fresh, map entry [''123456789 x''])"

section \<open>Strings and buffers\<close>

lemma length_alloca [simp]: "length (alloca e n) = n"
  by (simp add: alloca_def)

lemma digit_cases: "d < 10 \<Longrightarrow> d = 0 \<or> d = 1 \<or> d = 2 \<or> d = 3 \<or> d = 4 \<or> d = 5 \<or> d = 6 \<or> d = 7 \<or> d = 8 \<or> d = (9::nat)"
  by arith

lemma digit_char_props:
  assumes "d < 10"
  shows "isdigit (''0123456789'' ! d)" and "digit_val (''0123456789'' ! d) = d"
    and "''0123456789'' ! d \<noteq> NUL"
  using digit_cases [OF assms] by (auto simp: isdigit_def digit_val_def NUL_def)

declare dec_nat.simps [simp del]

lemma dec_nat_digits: "c \<in> set (dec_nat n) \<Longrightarrow> isdigit c"
proof (induction n arbitrary: c rule: dec_nat.induct)
  case (1 n)
  show ?case
  proof (cases "n < 10")
    case True
    with "1.prems" show ?thesis
      by (subst (asm) dec_nat.simps) (simp add: digit_char_props)
  next
    case False
    have m: "n mod 10 < 10" by simp
    from False "1.prems" have "c \<in> set (dec_nat (n div 10)) \<or> c = ''0123456789'' ! (n mod 10)"
      by (subst (asm) dec_nat.simps) auto
    then show ?thesis
      using "1.IH" [OF False] digit_char_props(1) [OF m] by blast
  qed
qed

lemma isdigit_not_NUL: "isdigit c \<Longrightarrow> c \<noteq> NUL"
  by (auto simp: isdigit_def NUL_def)

lemma length_dec_nat: "n < 10 ^ k \<Longrightarrow> 0 < k \<Longrightarrow> length (dec_nat n) \<le> k"
proof (induction n arbitrary: k rule: dec_nat.induct)
  case (1 n)
  show ?case
  proof (cases "n < 10")
    case True
    then have "length (dec_nat n) = 1" by (subst dec_nat.simps) simp
    with "1.prems" show ?thesis by simp
  next
    case False
    from False "1.prems" have k2: "1 < k"
      by (cases "k = 1") auto
    then obtain j where j: "k = Suc j" "0 < j" by (cases k) auto
    with "1.prems" have "n div 10 < 10 ^ j"
      by (simp add: less_mult_imp_div_less mult.commute)
    then have "length (dec_nat (n div 10)) \<le> j"
      using "1.IH" [OF False] j by simp
    moreover have "length (dec_nat n) = length (dec_nat (n div 10)) + 1"
      using False by (subst dec_nat.simps) simp
    ultimately show ?thesis using j by simp
  qed
qed

lemma dec_nat_nonempty: "dec_nat n \<noteq> []"
  by (subst dec_nat.simps) simp

lemma length_dec_int32: "- 2147483648 \<le> i \<Longrightarrow> i \<le> 2147483647 \<Longrightarrow> length (dec i) \<le> 11"
proof -
  assume a: "- 2147483648 \<le> i" "i \<le> 2147483647"
  have "length (dec_nat (nat \<bar>i\<bar>)) \<le> 10"
    by (rule length_dec_nat) (use a in auto)
  then show ?thesis
    by (auto simp: dec_def abs_if split: if_splits)
qed

lemma length_dec_sint: "length (dec (sint (c :: 32 word))) \<le> 11"
proof -
  have "- (2 ^ 31) \<le> sint c" using sint_ge [of c] by simp
  moreover have "sint c < 2 ^ 31" using sint_lt [of c] by simp
  ultimately show ?thesis by (intro length_dec_int32) auto
qed

lemma dec_no_NUL: "NUL \<notin> set (dec i)"
  using dec_nat_digits isdigit_not_NUL by (auto simp: dec_def NUL_def)

lemma cstr_append_NUL: "NUL \<notin> set s \<Longrightarrow> cstr (s @ NUL # r) = s"
  by (auto simp: cstr_def takeWhile_append2 takeWhile_tail)

lemma cstr_no_NUL: "NUL \<notin> set (cstr b)"
  by (auto simp: cstr_def dest: set_takeWhileD)

section \<open>Running one call\<close>

lemma run_finished: "finished c \<Longrightarrow> run e t c = Some c"
  by (subst run.simps) simp

lemma run_step: "\<not> finished c \<Longrightarrow> run e t c = run e t (stmt e t c)"
  by (subst run.simps) simp

lemma run_Some_not_inv:
  assumes step: "\<And>c. I c \<Longrightarrow> I (stmt e t c) \<and> \<not> finished c"
  shows "run e t c = Some r \<Longrightarrow> \<not> I c"
proof -
  have "e' = e \<longrightarrow> t' = t \<longrightarrow> \<not> I c" if "run e' t' c = Some r" for e' t'
  proof (rule run.raw_induct [where P = "\<lambda>e' t' c r. e' = e \<longrightarrow> t' = t \<longrightarrow> \<not> I c", OF _ that])
    fix run' e' t' c r
    assume IH: "\<And>e' t' c r. run' e' t' c = Some r \<Longrightarrow> e' = e \<longrightarrow> t' = t \<longrightarrow> \<not> I c"
      and eq: "(if finished c then Some c else run' e' t' (stmt e' t' c)) = Some r"
    show "e' = e \<longrightarrow> t' = t \<longrightarrow> \<not> I c"
    proof (intro impI notI)
      assume "e' = e" "t' = t" "I c"
      with step [of c] have "I (stmt e t c)" "\<not> finished c" by simp_all
      with eq \<open>e' = e\<close> \<open>t' = t\<close> have "run' e t (stmt e t c) = Some r" by simp
      with IH \<open>I (stmt e t c)\<close> show False by blast
    qed
  qed
  then show "run e t c = Some r \<Longrightarrow> \<not> I c" by simp
qed

lemma run_None:
  assumes "\<And>c. I c \<Longrightarrow> I (stmt e t c) \<and> \<not> finished c" and "I c"
  shows "run e t c = None"
  using run_Some_not_inv [of I e t c, OF assms(1)] assms(2)
  by (cases "run e t c") auto

lemma length_pidfile_name: "length (pidfile_name n) \<le> 25"
  using length_dec_sint [of n] by (simp add: pidfile_name_def)

lemma pidfile_name_no_NUL: "NUL \<notin> set (pidfile_name n)"
  using dec_no_NUL [of "sint n"] by (simp add: pidfile_name_def NUL_def)

lemma length_augmented: "length (augmented c n) \<le> strlen c + 41"
  using length_pidfile_name [of n] by (simp add: augmented_def strlen_def)

lemma augmented_no_NUL: "NUL \<notin> set (augmented c n)"
  using pidfile_name_no_NUL [of n] cstr_no_NUL [of c] by (simp add: augmented_def NUL_def)

lemma poke_name: "poke (alloca e 64) 0 (''_yafu_system_.'' @ dec (sint n)) = Some (name_buf e n)"
  using length_pidfile_name [of n] by (simp add: poke_def name_buf_def pidfile_name_def)

lemma cstr_name_buf: "cstr (name_buf e n) = pidfile_name n"
  by (simp add: name_buf_def cstr_append_NUL pidfile_name_no_NUL)

lemma poke_cmd:
  "poke (alloca e (strlen c + 128)) 0 (cstr c) =
     Some (cstr c @ NUL # drop (strlen c + 1) (alloca e (strlen c + 128)))"
  by (simp add: poke_def strlen_def)

lemma drop_over_written:
  "drop (length xs + 1 + m) (xs @ x # drop (length xs + 1) ys) = drop (length xs + 1 + m) ys"
  by (simp add: add.commute)

lemma poke_suffix:
  "poke (cstr c @ NUL # drop (strlen c + 1) (alloca e (strlen c + 128))) (strlen c)
        ('' & echo -n $! > '' @ pidfile_name n) = Some (cmd_buf e c n)"
proof -
  let ?b = "cstr c @ NUL # drop (strlen c + 1) (alloca e (strlen c + 128))"
  let ?s = "'' & echo -n $! > '' @ pidfile_name n"
  have len: "length ?s = 16 + length (pidfile_name n)" by simp
  have fits: "strlen c + length ?s + 1 \<le> length ?b"
    using length_pidfile_name [of n] by (simp add: strlen_def)
  have tk: "take (strlen c) ?b = cstr c" by (simp add: strlen_def)
  have "drop (length (cstr c) + 1 + length ?s) ?b
          = drop (length (cstr c) + 1 + length ?s) (alloca e (strlen c + 128))"
    unfolding strlen_def by (rule drop_over_written)
  then have dr: "drop (strlen c + length ?s + 1) ?b
          = drop (length (augmented c n) + 1) (alloca e (strlen c + 128))"
    by (simp add: strlen_def augmented_def add.commute add.left_commute)
  have "poke ?b (strlen c) ?s = Some (take (strlen c) ?b @ ?s @ NUL # drop (strlen c + length ?s + 1) ?b)"
    using fits unfolding poke_def by (simp only: if_True)
  also have "\<dots> = Some (cmd_buf e c n)"
    unfolding tk dr by (simp add: cmd_buf_def augmented_def)
  finally show ?thesis .
qed

lemma cstr_cmd_buf: "cstr (cmd_buf e c n) = augmented c n"
  by (simp add: cmd_buf_def cstr_append_NUL augmented_no_NUL)

lemma length_cmd_buf: "length (cmd_buf e c n) = strlen c + 128"
  using length_augmented [of c n] by (simp add: cmd_buf_def)

lemma run_iter: "run e t c = run e t (iter e t n c)"
proof (induction n arbitrary: c)
  case 0
  show ?case by simp
next
  case (Suc n)
  show ?case
  proof (cases "finished c")
    case True
    then show ?thesis by simp
  next
    case False
    then have "run e t c = run e t (stmt e t c)" by (rule run_step)
    also have "\<dots> = run e t (iter e t n (stmt e t c))" by (rule Suc.IH)
    finally show ?thesis using False by simp
  qed
qed

lemma run_via_iter: "iter e t n c = c' \<Longrightarrow> run e t c = run e t c'"
  using run_iter [of e t c n] by simp

lemma iter_numeral:
  "iter e t (numeral k) c = (if finished c then c else iter e t (pred_numeral k) (stmt e t c))"
  by (simp add: numeral_eq_Suc)

lemma iter_1: "iter e t 1 c = (if finished c then c else stmt e t c)"
  by simp

lemmas exec_simps = finished_def stmt_def system_call_def log_def Let_def iter_numeral

lemma iter_init_elected:
  assumes "pc fr = L54" "initializing w = 0"
  shows "iter e t 4 (w, fr) = (after_init t w, fr\<lparr>tmp := 1, pc := L63\<rparr>)"
  using assms by (simp add: exec_simps after_init_def)

lemma iter_init_other:
  assumes "pc fr = L54" "initializing w \<noteq> 0" "initializing w \<noteq> 1"
  shows "iter e t 2 (w, fr) = (after_init t w, fr\<lparr>pc := L63\<rparr>)"
  using assms by (simp add: exec_simps after_init_def)

lemma seg_init:
  assumes "pc fr = L54" "initializing w \<noteq> 1"
  shows "run e t (w, fr) =
         run e t (after_init t w, fr\<lparr>tmp := (if initializing w = 0 then 1 else tmp fr), pc := L63\<rparr>)"
proof (cases "initializing w = 0")
  case True
  then show ?thesis
    using run_via_iter [OF iter_init_elected [OF assms(1) True]] by simp
next
  case False
  then show ?thesis
    using run_via_iter [OF iter_init_other [OF assms(1) False assms(2)]] by simp
qed

lemma iter_submit:
  assumes "pc fr = L63" "cs_inits w \<noteq> 0" "owner w = None"
  shows "iter e t 10 (w, fr) =
           (submitted e t (cmd fr) w,
                  fr\<lparr>pidfilename := name_buf e (usecount w),
                     buf := cmd_buf e (cmd fr) (usecount w),
                     ptr := strlen (cmd fr), tmp := usecount w,
                     ret := fst (system_fn e (augmented (cmd fr) (usecount w)) (fs w)),
                     pc := L85\<rparr>)"
  using assms
  by (simp add: exec_simps submitted_def poke_name [simplified] poke_cmd [simplified]
        poke_suffix [simplified] cstr_name_buf cstr_cmd_buf)

lemma iter_bail:
  assumes "pc fr = L85" "fs w (cstr (pidfilename fr)) = None"
  shows "iter e t 2 (w, fr) =
           (log t (Fopen (cstr (pidfilename fr)) ''r'') w,
            fr\<lparr>fp := None, retval := - 1, pc := Returned\<rparr>)"
  using assms by (simp add: exec_simps)

lemma iter_recover:
  assumes "pc fr = L85" "fs w (cstr (pidfilename fr)) = Some content" "80 \<le> length (buf fr)"
  shows "iter e t 9 (w, fr) =
           (w\<lparr>fs := (fs w)(cstr (pidfilename fr) := None),
              trace := trace w @
                [(t, Fopen (cstr (pidfilename fr)) ''r''), (t, Fread 1 80), (t, Fclose),
                 (t, Remove (cstr (pidfilename fr))),
                 (t, Cygwin_internal_pid_to_winpid
                       (atoi (take 80 content @ drop (length (take 80 content)) (buf fr)))),
                 (t, OpenProcess [SYNCHRONIZE] False
                       (pid_to_winpid e
                          (atoi (take 80 content @ drop (length (take 80 content)) (buf fr)))))]\<rparr>,
            fr\<lparr>fp := Some content,
               buf := take 80 content @ drop (length (take 80 content)) (buf fr),
               pid := atoi (take 80 content @ drop (length (take 80 content)) (buf fr)),
               winpid := pid_to_winpid e
                   (atoi (take 80 content @ drop (length (take 80 content)) (buf fr))),
               hdl := opened e (atoi (take 80 content @ drop (length (take 80 content)) (buf fr))),
               pc := L100\<rparr>)"
  using assms by (simp add: exec_simps opened_def split: option.split)

lemma iter_wait:
  assumes "pc fr = L100" "\<not> waits_forever e (hdl fr)"
  shows "iter e t 3 (w, fr) =
           (w\<lparr>trace := trace w @
                [(t, WaitForSingleObject (hdl fr) INFINITE), (t, CloseHandle (hdl fr))]\<rparr>,
            fr\<lparr>retval := ret fr, pc := Returned\<rparr>)"
proof (cases "hdl fr")
  case NULL_HANDLE
  with assms show ?thesis by (simp add: exec_simps)
next
  case INVALID_HANDLE_VALUE
  with assms show ?thesis by (simp add: exec_simps)
next
  case (Handle n)
  with assms have "exits e n" by (simp add: waits_forever_def)
  with assms Handle show ?thesis by (simp add: exec_simps)
qed

lemma iter_uninitialised:
  assumes "pc fr = L63" "cs_inits w = 0"
  shows "iter e t 3 (w, fr) =
           (w, fr\<lparr>pidfilename := alloca e 64, buf := alloca e (strlen (cmd fr) + 128),
                  pc := Undefined_behaviour\<rparr>)"
  using assms by (simp add: exec_simps)

lemma iter_to_enter:
  assumes "pc fr = L63"
  shows "iter e t 2 (w, fr) =
           (w, fr\<lparr>pidfilename := alloca e 64, buf := alloca e (strlen (cmd fr) + 128), pc := L69\<rparr>)"
  using assms by (simp add: exec_simps)

lemma run_wait_forever:
  assumes "pc fr = L100" "waits_forever e (hdl fr)"
  shows "run e t (w, fr) = None"
proof (rule run_None [where I = "\<lambda>c. c = (w, fr)"])
  fix c assume "c = (w, fr)"
  with assms show "stmt e t c = (w, fr) \<and> \<not> finished c"
    by (simp add: exec_simps waits_forever_def split: HANDLE.splits)
qed simp

lemma run_blocked:
  assumes "pc fr = L69" "cs_inits w \<noteq> 0" "owner w \<noteq> None"
  shows "run e t (w, fr) = None"
proof (rule run_None [where I = "\<lambda>c. c = (w, fr)"])
  fix c assume "c = (w, fr)"
  with assms show "stmt e t c = (w, fr) \<and> \<not> finished c"
    by (auto simp add: exec_simps)
qed simp

lemma spinning_step: "spinning c \<Longrightarrow> spinning (stmt e t c) \<and> \<not> finished c"
proof -
  assume a: "spinning c"
  obtain w fr where c: "c = (w, fr)" by (cases c)
  from a c have i: "initializing w = 1" by (simp add: spinning_def)
  from a c consider "pc fr = L54" | "pc fr = L58" | "pc fr = L59"
    by (auto simp: spinning_def)
  then show ?thesis
  proof cases
    case 1
    with i c show ?thesis by (simp add: spinning_def exec_simps)
  next
    case 2
    with i c show ?thesis by (simp add: spinning_def exec_simps)
  next
    case 3
    with i c show ?thesis by (simp add: spinning_def exec_simps)
  qed
qed

lemma run_spin:
  assumes "pc fr = L54 \<or> pc fr = L58 \<or> pc fr = L59" "initializing w = 1"
  shows "run e t (w, fr) = None"
proof (rule run_None [where I = spinning])
  show "spinning (w, fr)" using assms by (simp add: spinning_def)
next
  fix c assume "spinning c"
  then show "spinning (stmt e t c) \<and> \<not> finished c" by (rule spinning_step)
qed

lemma after_init_fields [simp]:
  "usecount (after_init t w) = usecount w" "fs (after_init t w) = fs w"
  by (simp_all add: after_init_def log_def)

lemma entry_fields [simp]: "pc (entry c) = L54" "cmd (entry c) = c"
  by (simp_all add: entry_def)

lemma path_spin: "initializing w = 1 \<Longrightarrow> call e t c w = Hangs"
  by (simp add: call_def safe_system_def outcome_of_def run_spin)

lemma run_to_L63:
  assumes "initializing w \<noteq> 1"
  shows "safe_system e t c w =
         run e t (after_init t w, (entry c)\<lparr>tmp := (if initializing w = 0 then 1 else tmp (entry c)), pc := L63\<rparr>)"
  unfolding safe_system_def by (rule seg_init) (use assms in simp_all)

lemma path_uninitialised:
  assumes "initializing w \<noteq> 1" "cs_inits (after_init t w) = 0"
  shows "call e t c w = Undefined (after_init t w)"
proof -
  let ?fr = "(entry c)\<lparr>tmp := (if initializing w = 0 then 1 else tmp (entry c)), pc := L63\<rparr>"
  have "run e t (after_init t w, ?fr) =
        run e t (after_init t w, ?fr\<lparr>pidfilename := alloca e 64, buf := alloca e (strlen (cmd ?fr) + 128),
                  pc := Undefined_behaviour\<rparr>)"
    by (rule run_via_iter [OF iter_uninitialised]) (use assms in simp_all)
  also have "\<dots> = Some (after_init t w, ?fr\<lparr>pidfilename := alloca e 64, buf := alloca e (strlen (cmd ?fr) + 128),
                  pc := Undefined_behaviour\<rparr>)"
    by (rule run_finished) (simp add: finished_def)
  finally show ?thesis
    using run_to_L63 [OF assms(1), of e t c] by (simp add: call_def outcome_of_def)
qed

lemma path_blocked:
  assumes "initializing w \<noteq> 1" "cs_inits (after_init t w) \<noteq> 0" "owner (after_init t w) \<noteq> None"
  shows "call e t c w = Hangs"
proof -
  let ?fr = "(entry c)\<lparr>tmp := (if initializing w = 0 then 1 else tmp (entry c)), pc := L63\<rparr>"
  have "run e t (after_init t w, ?fr) =
        run e t (after_init t w, ?fr\<lparr>pidfilename := alloca e 64, buf := alloca e (strlen (cmd ?fr) + 128),
                  pc := L69\<rparr>)"
    by (rule run_via_iter [OF iter_to_enter]) simp
  also have "\<dots> = None"
    by (rule run_blocked) (use assms in simp_all)
  finally show ?thesis
    using run_to_L63 [OF assms(1), of e t c] by (simp add: call_def outcome_of_def)
qed

lemma run_to_L85:
  assumes "ready t w"
  shows "\<exists>fr. safe_system e t c w = run e t (submitted e t c (after_init t w), fr) \<and>
              pc fr = L85 \<and> cstr (pidfilename fr) = pidfile_name (usecount w) \<and>
              buf fr = cmd_buf e c (usecount w) \<and> ret fr = status e c w \<and>
              pid fr = pid (entry c) \<and> winpid fr = winpid (entry c) \<and> hdl fr = hdl (entry c)"
proof -
  let ?fr = "(entry c)\<lparr>tmp := (if initializing w = 0 then 1 else tmp (entry c)), pc := L63\<rparr>"
  let ?w = "after_init t w"
  let ?fr' = "?fr\<lparr>pidfilename := name_buf e (usecount ?w),
                     buf := cmd_buf e (cmd ?fr) (usecount ?w),
                     ptr := strlen (cmd ?fr), tmp := usecount ?w,
                     ret := fst (system_fn e (augmented (cmd ?fr) (usecount ?w)) (fs ?w)),
                     pc := L85\<rparr>"
  from assms have i: "initializing w \<noteq> 1" and r: "cs_inits ?w \<noteq> 0" "owner ?w = None"
    by (simp_all add: ready_def)
  have "iter e t 10 (?w, ?fr) = (submitted e t (cmd ?fr) ?w, ?fr')"
    by (rule iter_submit) (use r in simp_all)
  then have "run e t (?w, ?fr) = run e t (submitted e t c ?w, ?fr')"
    using run_via_iter by fastforce
  with run_to_L63 [OF i, of e t c] have "safe_system e t c w = run e t (submitted e t c ?w, ?fr')"
    by simp
  moreover have "pc ?fr' = L85" "cstr (pidfilename ?fr') = pidfile_name (usecount w)"
    "buf ?fr' = cmd_buf e c (usecount w)" "ret ?fr' = status e c w"
    "pid ?fr' = pid (entry c)" "winpid ?fr' = winpid (entry c)" "hdl ?fr' = hdl (entry c)"
    by (simp_all add: cstr_name_buf status_def)
  ultimately show ?thesis by blast
qed

lemma submitted_fs [simp]:
  "fs (submitted e t c (after_init t w)) (pidfile_name (usecount w)) = handoff e c w"
  by (simp add: submitted_def handoff_def)

lemma safe_system_bail:
  assumes "ready t w" "handoff e c w = None"
  shows "\<exists>fr. safe_system e t c w = Some (bailed e t c w, fr) \<and> pc fr = Returned \<and>
              retval fr = - 1 \<and> pid fr = pid (entry c) \<and> winpid fr = winpid (entry c) \<and>
              hdl fr = hdl (entry c)"
proof -
  from run_to_L85 [OF assms(1), of e c] obtain fr where
    fr: "safe_system e t c w = run e t (submitted e t c (after_init t w), fr)"
      "pc fr = L85" "cstr (pidfilename fr) = pidfile_name (usecount w)"
      "pid fr = pid (entry c)" "winpid fr = winpid (entry c)" "hdl fr = hdl (entry c)"
    by blast
  let ?w2 = "submitted e t c (after_init t w)"
  have "iter e t 2 (?w2, fr) =
          (log t (Fopen (cstr (pidfilename fr)) ''r'') ?w2, fr\<lparr>fp := None, retval := - 1, pc := Returned\<rparr>)"
    by (rule iter_bail) (use fr assms in simp_all)
  then have "run e t (?w2, fr) = run e t (bailed e t c w, fr\<lparr>fp := None, retval := - 1, pc := Returned\<rparr>)"
    using run_via_iter fr(3) by (fastforce simp: bailed_def)
  also have "\<dots> = Some (bailed e t c w, fr\<lparr>fp := None, retval := - 1, pc := Returned\<rparr>)"
    by (rule run_finished) (simp add: finished_def)
  finally have "safe_system e t c w = Some (bailed e t c w, fr\<lparr>fp := None, retval := - 1, pc := Returned\<rparr>)"
    using fr(1) by simp
  then show ?thesis using fr(4,5,6) by simp
qed

lemma path_bail:
  assumes "ready t w" "handoff e c w = None"
  shows "call e t c w = Returns (- 1) (bailed e t c w)"
  using safe_system_bail [OF assms] by (auto simp: call_def outcome_of_def)

lemma length_take_le_cmd_buf: "80 \<le> length (cmd_buf e c n)"
  by (simp add: length_cmd_buf)

lemma run_to_L100:
  assumes "ready t w" "handoff e c w = Some content"
  shows "\<exists>fr. safe_system e t c w = run e t (recovered e t c w content, fr) \<and>
              pc fr = L100 \<and> ret fr = status e c w \<and>
              pid fr = parsed_pid e c w content \<and>
              hdl fr = opened e (parsed_pid e c w content)"
proof -
  from run_to_L85 [OF assms(1), of e c] obtain fr where
    fr: "safe_system e t c w = run e t (submitted e t c (after_init t w), fr)"
      "pc fr = L85" "cstr (pidfilename fr) = pidfile_name (usecount w)"
      "buf fr = cmd_buf e c (usecount w)" "ret fr = status e c w"
    by blast
  let ?w2 = "submitted e t c (after_init t w)"
  let ?B = "take 80 content @ drop (length (take 80 content)) (buf fr)"
  let ?fr' = "fr\<lparr>fp := Some content, buf := ?B, pid := atoi ?B,
               winpid := pid_to_winpid e (atoi ?B), hdl := opened e (atoi ?B), pc := L100\<rparr>"
  have B: "?B = read_buf e c (usecount w) content"
    by (simp add: read_buf_def fr(4))
  have "iter e t 9 (?w2, fr) =
           (?w2\<lparr>fs := (fs ?w2)(cstr (pidfilename fr) := None),
              trace := trace ?w2 @
                [(t, Fopen (cstr (pidfilename fr)) ''r''), (t, Fread 1 80), (t, Fclose),
                 (t, Remove (cstr (pidfilename fr))),
                 (t, Cygwin_internal_pid_to_winpid (atoi ?B)),
                 (t, OpenProcess [SYNCHRONIZE] False (pid_to_winpid e (atoi ?B)))]\<rparr>, ?fr')"
    by (rule iter_recover) (use fr assms length_take_le_cmd_buf in simp_all)
  also have "\<dots> = (recovered e t c w content, ?fr')"
    unfolding B fr(3) by (simp add: recovered_def parsed_pid_def Let_def)
  finally have "run e t (?w2, fr) = run e t (recovered e t c w content, ?fr')"
    by (rule run_via_iter)
  with fr(1) have "safe_system e t c w = run e t (recovered e t c w content, ?fr')"
    by simp
  moreover have "pc ?fr' = L100" "ret ?fr' = status e c w"
    "pid ?fr' = parsed_pid e c w content" "hdl ?fr' = opened e (parsed_pid e c w content)"
    using fr(5) unfolding B parsed_pid_def by simp_all
  ultimately show ?thesis by blast
qed

lemma path_wait_forever:
  assumes "ready t w" "handoff e c w = Some content"
    "waits_forever e (opened e (parsed_pid e c w content))"
  shows "call e t c w = Hangs"
proof -
  from run_to_L100 [OF assms(1,2)] obtain fr where
    fr: "safe_system e t c w = run e t (recovered e t c w content, fr)" "pc fr = L100"
      "hdl fr = opened e (parsed_pid e c w content)"
    by blast
  have "run e t (recovered e t c w content, fr) = None"
    by (rule run_wait_forever) (use fr assms in simp_all)
  with fr(1) show ?thesis by (simp add: call_def outcome_of_def)
qed

lemma path_complete:
  assumes "ready t w" "handoff e c w = Some content"
    "\<not> waits_forever e (opened e (parsed_pid e c w content))"
  shows "call e t c w = Returns (status e c w) (completed e t c w content)"
proof -
  from run_to_L100 [OF assms(1,2)] obtain fr where
    fr: "safe_system e t c w = run e t (recovered e t c w content, fr)" "pc fr = L100"
      "ret fr = status e c w" "hdl fr = opened e (parsed_pid e c w content)"
    by blast
  let ?w3 = "recovered e t c w content"
  have "iter e t 3 (?w3, fr) =
           (?w3\<lparr>trace := trace ?w3 @
                [(t, WaitForSingleObject (hdl fr) INFINITE), (t, CloseHandle (hdl fr))]\<rparr>,
            fr\<lparr>retval := ret fr, pc := Returned\<rparr>)"
    by (rule iter_wait) (use fr assms in simp_all)
  also have "\<dots> = (completed e t c w content, fr\<lparr>retval := ret fr, pc := Returned\<rparr>)"
    by (simp add: completed_def Let_def fr(4))
  finally have "run e t (?w3, fr) = run e t (completed e t c w content, fr\<lparr>retval := ret fr, pc := Returned\<rparr>)"
    by (rule run_via_iter)
  also have "\<dots> = Some (completed e t c w content, fr\<lparr>retval := ret fr, pc := Returned\<rparr>)"
    by (rule run_finished) (simp add: finished_def)
  finally show ?thesis using fr(1,3) by (simp add: call_def outcome_of_def)
qed

section \<open>Decimal numerals read back\<close>

lemma digits_val_dec_nat:
  "digits_val a (dec_nat n @ r) = digits_val (a * 10 ^ length (dec_nat n) + n) r"
proof (induction n arbitrary: a r rule: dec_nat.induct)
  case (1 n)
  show ?case
  proof (cases "n < 10")
    case True
    then have d: "dec_nat n = [''0123456789'' ! n]" by (subst dec_nat.simps) simp
    show ?thesis
      unfolding d using digit_char_props(1,2) [OF True] by (simp add: mult.commute)
  next
    case False
    have m: "n mod 10 < 10" by simp
    have d: "dec_nat n = dec_nat (n div 10) @ [''0123456789'' ! (n mod 10)]"
      using False by (subst dec_nat.simps) simp
    have "digits_val a (dec_nat n @ r)
            = digits_val a (dec_nat (n div 10) @ (''0123456789'' ! (n mod 10)) # r)"
      unfolding d by simp
    also have "\<dots> = digits_val (a * 10 ^ length (dec_nat (n div 10)) + n div 10)
                        ((''0123456789'' ! (n mod 10)) # r)"
      by (rule "1.IH" [OF False])
    also have "\<dots> = digits_val (10 * (a * 10 ^ length (dec_nat (n div 10)) + n div 10) + n mod 10) r"
      using digit_char_props(1,2) [OF m] by simp
    also have "10 * (a * 10 ^ length (dec_nat (n div 10)) + n div 10) + n mod 10
                 = a * 10 ^ length (dec_nat n) + n"
      unfolding d by (simp add: algebra_simps)
    finally show ?thesis .
  qed
qed

lemma digits_val_dec_nat_0: "digits_val 0 (dec_nat n) = n"
proof -
  have "digits_val 0 (dec_nat n @ []) = digits_val (0 * 10 ^ length (dec_nat n) + n) []"
    by (rule digits_val_dec_nat)
  also have "\<dots> = n" by simp
  finally show ?thesis by (simp only: append_Nil2)
qed

lemma dec_nat_inject: "dec_nat m = dec_nat n \<Longrightarrow> m = n"
  by (metis digits_val_dec_nat_0)

lemma hd_dec_nat_digit: "isdigit (hd (dec_nat n))"
  using dec_nat_digits [of "hd (dec_nat n)" n] dec_nat_nonempty [of n] by simp

lemma minus_not_digit: "\<not> isdigit CHR ''-''"
  by (simp add: isdigit_def)

lemma dec_nat_not_minus: "dec_nat n \<noteq> CHR ''-'' # r"
  using hd_dec_nat_digit [of n] minus_not_digit by (cases "dec_nat n") auto

lemma dec_inject: "dec i = dec j \<Longrightarrow> i = j"
proof -
  assume a: "dec i = dec j"
  show ?thesis
  proof (cases "i < 0")
    case True
    show ?thesis
    proof (cases "j < 0")
      case jn: True
      with True a have "nat (- i) = nat (- j)" by (simp add: dec_def dec_nat_inject)
      with True jn show ?thesis by simp
    next
      case False
      with True a dec_nat_not_minus show ?thesis by (simp add: dec_def) metis
    qed
  next
    case False
    show ?thesis
    proof (cases "j < 0")
      case True
      with False a dec_nat_not_minus show ?thesis by (simp add: dec_def)
    next
      case jp: False
      with False a have "nat i = nat j" by (simp add: dec_def dec_nat_inject)
      with False jp show ?thesis by simp
    qed
  qed
qed


section \<open>Parsing the pid out of the command buffer\<close>

lemma sint_small: "0 \<le> v \<Longrightarrow> v \<le> 2147483647 \<Longrightarrow> sint (word_of_int v :: 32 word) = v"
  by (simp add: signed_of_int signed_take_bit_int_eq_self)

lemma isdigit_plain: "isdigit c \<Longrightarrow> \<not> isspace c \<and> c \<noteq> CHR ''-'' \<and> c \<noteq> CHR ''+''"
  by (auto simp: isdigit_def isspace_def)

lemma strtol10_digits:
  assumes "isdigit c"
  shows "strtol10 (c # r) = min 9223372036854775807 (int (digits_val 0 (c # r)))"
  using isdigit_plain [OF assms] by (simp add: strtol10_def)

lemma digits_val_ge: "a \<le> digits_val a r"
proof (induction r arbitrary: a)
  case Nil
  show ?case by simp
next
  case (Cons c r)
  have "a \<le> 10 * a + digit_val c" by simp
  also have "\<dots> \<le> digits_val (10 * a + digit_val c) r" by (rule Cons.IH)
  finally show ?case by simp
qed

lemma digits_val_stop: "\<not> isdigit c \<Longrightarrow> digits_val a (c # r) = a"
  by simp

lemma digits_val_more: "isdigit c \<Longrightarrow> 0 < a \<Longrightarrow> a < digits_val a (c # r)"
proof -
  assume d: "isdigit c" and a: "0 < a"
  have "a < 10 * a + digit_val c" using a by simp
  also have "\<dots> \<le> digits_val (10 * a + digit_val c) r" by (rule digits_val_ge)
  finally show ?thesis using d by simp
qed

lemma atoi_dec_nat:
  "atoi (dec_nat p @ r) =
     sint (word_of_int (min 9223372036854775807 (int (digits_val p r))) :: 32 word)"
proof -
  obtain c cs where d: "dec_nat p = c # cs"
    using dec_nat_nonempty [of p] by (cases "dec_nat p") auto
  have c: "isdigit c" using hd_dec_nat_digit [of p] d by simp
  have "strtol10 (dec_nat p @ r) = min 9223372036854775807 (int (digits_val 0 (dec_nat p @ r)))"
    unfolding d using strtol10_digits [OF c, of "cs @ r"] by simp
  also have "digits_val 0 (dec_nat p @ r) = digits_val p r"
    using digits_val_dec_nat [of 0 p r] by simp
  finally show ?thesis by (simp add: atoi_def)
qed

lemma length_dec_nat_int32: "p \<le> 2147483647 \<Longrightarrow> length (dec_nat p) \<le> 10"
  by (rule length_dec_nat) simp_all

lemma dec_nonempty: "dec i \<noteq> []"
  using dec_nat_nonempty by (simp add: dec_def)

lemma length_augmented_ge: "31 \<le> length (augmented c n)"
proof -
  have "1 \<le> length (dec (sint n))"
    using dec_nonempty [of "sint n"] by (cases "dec (sint n)") auto
  then show ?thesis by (simp add: augmented_def pidfile_name_def)
qed

text \<open>The byte of the command buffer just after the bytes that \<^verbatim>\<open>fread\<close> wrote.\<close>

lemma read_buf_dec_nat:
  assumes "p \<le> 2147483647"
  shows "read_buf e c n (dec_nat p) =
           dec_nat p @ drop (length (dec_nat p)) (augmented c n) @
           NUL # drop (length (augmented c n) + 1) (alloca e (strlen c + 128))"
proof -
  have l: "length (dec_nat p) \<le> 10" using assms by (rule length_dec_nat_int32)
  then have t: "take 80 (dec_nat p) = dec_nat p" by simp
  have k: "length (dec_nat p) \<le> length (augmented c n)"
    using l length_augmented_ge [of c n] by simp
  show ?thesis
    unfolding read_buf_def t cmd_buf_def using k by simp
qed

lemma byte_after:
  assumes "k \<le> length a"
  shows "drop k a @ NUL # j = ((a @ [NUL]) ! k) # tl (drop k a @ NUL # j)"
proof (cases "k = length a")
  case True
  then show ?thesis by (simp add: nth_append)
next
  case False
  with assms have lt: "k < length a" by simp
  then have "drop k a = (a ! k) # drop (Suc k) a" by (simp add: Cons_nth_drop_Suc)
  then show ?thesis using lt by (simp add: nth_append)
qed

lemma parsed_pid_dec_nat:
  assumes "p \<le> 2147483647"
  shows "\<not> isdigit ((augmented c (usecount w) @ [NUL]) ! length (dec_nat p)) \<Longrightarrow>
           parsed_pid e c w (dec_nat p) = int p"
    and "isdigit ((augmented c (usecount w) @ [NUL]) ! length (dec_nat p)) \<Longrightarrow> 0 < p \<Longrightarrow>
           p < digits_val 0 (read_buf e c (usecount w) (dec_nat p))"
    and "digits_val 0 (read_buf e c (usecount w) (dec_nat p)) \<le> 2147483647 \<Longrightarrow>
           parsed_pid e c w (dec_nat p) = int (digits_val 0 (read_buf e c (usecount w) (dec_nat p)))"
proof -
  let ?a = "augmented c (usecount w)"
  let ?k = "length (dec_nat p)"
  let ?j = "drop (length ?a + 1) (alloca e (strlen c + 128))"
  let ?r = "drop ?k ?a @ NUL # ?j"
  let ?b = "(?a @ [NUL]) ! ?k"
  have k: "?k \<le> length ?a"
    using length_dec_nat_int32 [OF assms] length_augmented_ge [of c "usecount w"] by simp
  have rb: "read_buf e c (usecount w) (dec_nat p) = dec_nat p @ ?r"
    using read_buf_dec_nat [OF assms, of e c "usecount w"] by simp
  have r: "?r = ?b # tl ?r" using k by (rule byte_after)
  have dv: "digits_val 0 (read_buf e c (usecount w) (dec_nat p)) = digits_val p ?r"
    unfolding rb using digits_val_dec_nat [of 0 p ?r] by simp
  have pp: "parsed_pid e c w (dec_nat p) =
              sint (word_of_int (min 9223372036854775807 (int (digits_val p ?r))) :: 32 word)"
    unfolding parsed_pid_def rb by (rule atoi_dec_nat)
  {
    assume nd: "\<not> isdigit ?b"
    have "digits_val p ?r = p"
      by (subst r) (simp add: nd)
    moreover have "min 9223372036854775807 (int p) = int p" using assms by simp
    ultimately have "parsed_pid e c w (dec_nat p) = sint (word_of_int (int p) :: 32 word)"
      using pp by (simp only:)
    also have "\<dots> = int p" by (rule sint_small) (use assms in simp_all)
    finally show "parsed_pid e c w (dec_nat p) = int p" .
  }
  {
    assume d: "isdigit ?b" and pos: "0 < p"
    have "p < digits_val p (?b # tl ?r)" using d pos by (rule digits_val_more)
    with r dv show "p < digits_val 0 (read_buf e c (usecount w) (dec_nat p))" by simp
  }
  {
    assume s: "digits_val 0 (read_buf e c (usecount w) (dec_nat p)) \<le> 2147483647"
    let ?v = "digits_val 0 (read_buf e c (usecount w) (dec_nat p))"
    have "min 9223372036854775807 (int ?v) = int ?v" using s by simp
    then have "parsed_pid e c w (dec_nat p) = sint (word_of_int (int ?v) :: 32 word)"
      using pp dv by (simp only:)
    also have "\<dots> = int ?v" by (rule sint_small) (use s in simp_all)
    finally show "parsed_pid e c w (dec_nat p) = int ?v" .
  }
qed

section \<open>Events of a call\<close>

lemma trace_after_init: "trace (after_init t w) = trace w @ map (Pair t) (init_events w)"
  by (simp add: after_init_def init_events_def log_def)

lemma new_events_bailed:
  "new_events w (bailed e t c w) =
     init_events w @
     [EnterCriticalSection,
      Fprintf_stderr (''*SYSTEM* >>'' @ augmented c (usecount w) @ ''<<'' @ [CHR 0x0A]),
      System (augmented c (usecount w)), LeaveCriticalSection,
      Fopen (pidfile_name (usecount w)) ''r'']"
  by (simp add: new_events_def bailed_def submitted_def log_def trace_after_init comp_def)

lemma new_events_recovered:
  "new_events w (recovered e t c w content) =
     init_events w @
     [EnterCriticalSection,
      Fprintf_stderr (''*SYSTEM* >>'' @ augmented c (usecount w) @ ''<<'' @ [CHR 0x0A]),
      System (augmented c (usecount w)), LeaveCriticalSection,
      Fopen (pidfile_name (usecount w)) ''r'', Fread 1 80, Fclose,
      Remove (pidfile_name (usecount w)),
      Cygwin_internal_pid_to_winpid (parsed_pid e c w content),
      OpenProcess [SYNCHRONIZE] False (pid_to_winpid e (parsed_pid e c w content))]"
  by (simp add: new_events_def recovered_def submitted_def Let_def trace_after_init comp_def)

lemma new_events_completed:
  "new_events w (completed e t c w content) =
     init_events w @
     [EnterCriticalSection,
      Fprintf_stderr (''*SYSTEM* >>'' @ augmented c (usecount w) @ ''<<'' @ [CHR 0x0A]),
      System (augmented c (usecount w)), LeaveCriticalSection,
      Fopen (pidfile_name (usecount w)) ''r'', Fread 1 80, Fclose,
      Remove (pidfile_name (usecount w)),
      Cygwin_internal_pid_to_winpid (parsed_pid e c w content),
      OpenProcess [SYNCHRONIZE] False (pid_to_winpid e (parsed_pid e c w content)),
      WaitForSingleObject (opened e (parsed_pid e c w content)) INFINITE,
      CloseHandle (opened e (parsed_pid e c w content))]"
  by (simp add: new_events_def completed_def recovered_def submitted_def Let_def trace_after_init comp_def)

lemma systems_init_events [simp]: "systems (init_events w @ evs) = systems evs"
  by (simp add: systems_def init_events_def)

lemma ready_fresh: "ready t fresh"
  by (simp add: ready_def fresh_def after_init_def log_def)

lemma pidfile_name_0: "pidfile_name 0 = ''_yafu_system_.0''"
  by (simp add: pidfile_name_def dec_def dec_nat.simps)

lemma handoff_ok: "handoff platform_ok c fresh = Some ''1234''"
  by (simp add: handoff_def platform_ok_def fresh_def pidfile_name_0)

lemma not_waits_forever_ok: "\<not> waits_forever platform_ok (opened platform_ok p)"
  by (simp add: waits_forever_def opened_def platform_ok_def)

section \<open>The claims about one call\<close>

text \<open>
  C1. A call that gets into the critical section, finds its handoff file and whose wait
  ends returns the exit status that \<^verbatim>\<open>system\<close> gave for the augmented command: the
  caller's string, then \<^verbatim>\<open> & echo -n $! > \<close>, then the name of the handoff file of this
  call. \<^verbatim>\<open>system\<close> is called exactly once, with that command, and before the wait.
\<close>

theorem successful_call_returns_submission_status:
  assumes "ready t w" and "handoff e c w = Some content"
    and "\<not> waits_forever e (opened e (parsed_pid e c w content))"
  shows "call e t c w =
           Returns (fst (system_fn e (cstr c @ '' & echo -n $! > '' @ ''_yafu_system_.'' @ dec (sint (usecount w))) (fs w)))
                   (completed e t c w content)
         \<and> systems (new_events w (completed e t c w content)) =
             [cstr c @ '' & echo -n $! > '' @ ''_yafu_system_.'' @ dec (sint (usecount w))]
         \<and> before (System (cstr c @ '' & echo -n $! > '' @ ''_yafu_system_.'' @ dec (sint (usecount w))))
                  (WaitForSingleObject (opened e (parsed_pid e c w content)) INFINITE)
                  (new_events w (completed e t c w content))"
proof -
  have aug: "cstr c @ '' & echo -n $! > '' @ ''_yafu_system_.'' @ dec (sint (usecount w))
               = augmented c (usecount w)"
    by (simp add: augmented_def pidfile_name_def)
  have "call e t c w = Returns (status e c w) (completed e t c w content)"
    using assms by (rule path_complete)
  moreover have "systems (new_events w (completed e t c w content)) = [augmented c (usecount w)]"
    by (simp add: new_events_completed) (simp add: systems_def)
  moreover have "before (System (augmented c (usecount w)))
                  (WaitForSingleObject (opened e (parsed_pid e c w content)) INFINITE)
                  (new_events w (completed e t c w content))"
    by (simp add: new_events_completed before_def init_events_def)
  ultimately show ?thesis
    unfolding aug by (simp add: status_def)
qed

theorem successful_call_returns_submission_status_witness:
  "call platform_ok 0 ''ls'' fresh = Returns 0 (completed platform_ok 0 ''ls'' fresh ''1234'')
   \<and> systems (new_events fresh (completed platform_ok 0 ''ls'' fresh ''1234'')) =
        [''ls & echo -n $! > _yafu_system_.0'']"
proof -
  have d: "dec (sint (usecount fresh)) = ''0''"
    by (simp add: fresh_def dec_def dec_nat.simps)
  have s: "fst (system_fn platform_ok a f) = 0" for a f
    by (simp add: platform_ok_def)
  have c: "cstr ''ls'' = ''ls''"
    by (simp add: cstr_def NUL_def)
  show ?thesis
    using successful_call_returns_submission_status
            [of 0 fresh platform_ok "''ls''" "''1234''", OF ready_fresh handoff_ok not_waits_forever_ok]
    unfolding d s c by simp
qed

lemma handoff_no_file: "handoff platform_no_file c fresh = None"
  by (simp add: handoff_def platform_no_file_def platform_ok_def fresh_def)

text \<open>
  C3. When the handoff file of the call cannot be opened the call returns -1. Up to then it
  has initialised (if it was the first), submitted and tried to open the file, and nothing
  else: no read, no removal, no translation of a pid, no handle, no wait; the locals
  \<open>pid\<close>, \<open>winpid\<close> and \<open>hdl\<close> were never assigned.
\<close>

theorem no_handoff_file_returns_failure:
  assumes "ready t w" and "handoff e c w = None"
  shows "call e t c w = Returns (- 1) (bailed e t c w)
         \<and> new_events w (bailed e t c w) =
             init_events w @
             [EnterCriticalSection,
              Fprintf_stderr (''*SYSTEM* >>'' @ augmented c (usecount w) @ ''<<'' @ [CHR 0x0A]),
              System (augmented c (usecount w)), LeaveCriticalSection,
              Fopen (pidfile_name (usecount w)) ''r'']
         \<and> (\<exists>fr. safe_system e t c w = Some (bailed e t c w, fr) \<and> pid fr = pid (entry c) \<and>
                  winpid fr = winpid (entry c) \<and> hdl fr = hdl (entry c))"
proof -
  have "call e t c w = Returns (- 1) (bailed e t c w)"
    using assms by (rule path_bail)
  moreover note new_events_bailed [of w e t c]
  moreover have "\<exists>fr. safe_system e t c w = Some (bailed e t c w, fr) \<and> pid fr = pid (entry c) \<and>
                  winpid fr = winpid (entry c) \<and> hdl fr = hdl (entry c)"
    using safe_system_bail [OF assms] by blast
  ultimately show ?thesis by blast
qed

theorem no_handoff_file_returns_failure_witness:
  "call platform_no_file 0 ''ls'' fresh = Returns (- 1) (bailed platform_no_file 0 ''ls'' fresh)
   \<and> new_events fresh (bailed platform_no_file 0 ''ls'' fresh) =
       [InitializeCriticalSection, EnterCriticalSection,
        Fprintf_stderr (''*SYSTEM* >>ls & echo -n $! > _yafu_system_.0<<'' @ [CHR 0x0A]),
        System ''ls & echo -n $! > _yafu_system_.0'', LeaveCriticalSection,
        Fopen ''_yafu_system_.0'' ''r'']"
proof -
  have a: "augmented ''ls'' (usecount fresh) = ''ls & echo -n $! > _yafu_system_.0''"
    by (simp add: augmented_def fresh_def pidfile_name_0 cstr_def NUL_def)
  have n: "pidfile_name (usecount fresh) = ''_yafu_system_.0''"
    by (simp add: fresh_def pidfile_name_0)
  have i: "init_events fresh = [InitializeCriticalSection]"
    by (simp add: init_events_def fresh_def)
  show ?thesis
    using no_handoff_file_returns_failure [of 0 fresh platform_no_file "''ls''", OF ready_fresh handoff_no_file]
    unfolding a n i by simp
qed

lemma handoff_task_gone: "handoff platform_task_gone c fresh = Some ''1234''"
  by (simp add: handoff_def platform_task_gone_def platform_ok_def fresh_def pidfile_name_0)

lemma opened_task_gone: "opened platform_task_gone p = NULL_HANDLE"
  by (simp add: opened_def platform_task_gone_def)

lemma open_failure_not_reported:
  assumes "ready t w" and "handoff e c w = Some content"
    and "open_process e (pid_to_winpid e (parsed_pid e c w content)) = None"
  shows "call e t c w = Returns (status e c w) (completed e t c w content)"
    and "opened e (parsed_pid e c w content) = NULL_HANDLE"
proof -
  show h: "opened e (parsed_pid e c w content) = NULL_HANDLE"
    using assms(3) by (simp add: opened_def)
  show "call e t c w = Returns (status e c w) (completed e t c w content)"
    by (rule path_complete [OF assms(1,2)]) (simp add: h waits_forever_def)
qed

text \<open>
  C2. On a platform where \<^verbatim>\<open>OpenProcess\<close> fails (it returns \<^verbatim>\<open>NULL\<close>), the call does not
  return -1: line 98 compares the handle with \<^verbatim>\<open>INVALID_HANDLE_VALUE\<close>, so the call goes on
  to wait on the null handle, closes it and returns the exit status of the shell (here 0).
  The handle was requested with \<^verbatim>\<open>SYNCHRONIZE\<close> alone.
\<close>

theorem open_process_failure_returns_status_not_failure:
  "open_process platform_task_gone
     (pid_to_winpid platform_task_gone (parsed_pid platform_task_gone ''true'' fresh ''1234'')) = None
   \<and> call platform_task_gone 0 ''true'' fresh =
       Returns 0 (completed platform_task_gone 0 ''true'' fresh ''1234'')
   \<and> drop 10 (new_events fresh (completed platform_task_gone 0 ''true'' fresh ''1234'')) =
       [OpenProcess [SYNCHRONIZE] False
          (pid_to_winpid platform_task_gone (parsed_pid platform_task_gone ''true'' fresh ''1234'')),
        WaitForSingleObject NULL_HANDLE INFINITE, CloseHandle NULL_HANDLE]"
proof -
  have o: "open_process platform_task_gone
     (pid_to_winpid platform_task_gone (parsed_pid platform_task_gone ''true'' fresh ''1234'')) = None"
    by (simp add: platform_task_gone_def)
  have s: "status platform_task_gone ''true'' fresh = 0"
    by (simp add: status_def platform_task_gone_def platform_ok_def)
  have i: "init_events fresh = [InitializeCriticalSection]"
    by (simp add: init_events_def fresh_def)
  have "call platform_task_gone 0 ''true'' fresh =
          Returns 0 (completed platform_task_gone 0 ''true'' fresh ''1234'')"
    using open_failure_not_reported(1) [OF ready_fresh handoff_task_gone o] s by simp
  moreover have "drop 10 (new_events fresh (completed platform_task_gone 0 ''true'' fresh ''1234'')) =
       [OpenProcess [SYNCHRONIZE] False
          (pid_to_winpid platform_task_gone (parsed_pid platform_task_gone ''true'' fresh ''1234'')),
        WaitForSingleObject NULL_HANDLE INFINITE, CloseHandle NULL_HANDLE]"
    by (simp add: new_events_completed i opened_task_gone)
  ultimately show ?thesis using o by blast
qed

lemma owner_after [simp]:
  "owner (submitted e t c w1) = None" "owner (bailed e t c w) = None"
  "owner (recovered e t c w content) = None" "owner (completed e t c w content) = None"
  by (simp_all add: submitted_def bailed_def recovered_def completed_def log_def Let_def)

lemma new_events_submitted:
  "new_events w (submitted e t c (after_init t w)) =
     init_events w @
     [EnterCriticalSection,
      Fprintf_stderr (''*SYSTEM* >>'' @ augmented c (usecount w) @ ''<<'' @ [CHR 0x0A]),
      System (augmented c (usecount w)), LeaveCriticalSection]"
  by (simp add: new_events_def submitted_def trace_after_init comp_def)



lemma file_events_init [simp]: "file_events (init_events w @ evs) = file_events evs"
  by (simp add: file_events_def init_events_def)

section \<open>Buffers\<close>

lemma call_undefined_only_uninitialised:
  assumes "call e t c w = Undefined w'"
  shows "initializing w \<noteq> 0 \<and> initializing w \<noteq> 1 \<and> cs_inits w = 0"
proof -
  have i1: "initializing w \<noteq> 1"
    using assms path_spin [of w e t c] by auto
  have cs: "cs_inits (after_init t w) = 0"
  proof (rule ccontr)
    assume n: "cs_inits (after_init t w) \<noteq> 0"
    show False
    proof (cases "owner (after_init t w)")
      case (Some u)
      then show False using assms path_blocked [OF i1 n, of e c] by simp
    next
      case None
      with i1 n have r: "ready t w" by (simp add: ready_def)
      show False
      proof (cases "handoff e c w")
        case None
        then show False using assms path_bail [OF r, of e c] by simp
      next
        case (Some content)
        show False
        proof (cases "waits_forever e (opened e (parsed_pid e c w content))")
          case True
          then show False using assms path_wait_forever [OF r Some] by simp
        next
          case False
          then show False using assms path_complete [OF r Some] by simp
        qed
      qed
    qed
  qed
  then show ?thesis using i1 by (auto simp: after_init_def log_def split: if_splits)
qed

text \<open>
  C10. For every command and every value of the counter the writes stay inside the
  buffers: the name and its terminator take at most 26 of the 64 bytes, the augmented
  command and its terminator at most the length of the command plus 42 of the length of
  the command plus 128 bytes, and the at most 80 bytes read from the file fit as well.
  The three writes of lines 72-75 are therefore defined, and a call is undefined only when
  it enters a critical section that nobody initialised.
\<close>

theorem buffer_writes_within_allocations:
  "length (pidfile_name n) + 1 \<le> 26 \<and> length (pidfile_name n) + 1 < length (alloca e 64)
   \<and> poke (alloca e 64) 0 (''_yafu_system_.'' @ dec (sint n)) = Some (name_buf e n)
   \<and> length (augmented c n) + 1 \<le> strlen c + 42
   \<and> length (augmented c n) + 1 < length (alloca e (strlen c + 128))
   \<and> poke (alloca e (strlen c + 128)) 0 (cstr c) \<noteq> None
   \<and> poke (cstr c @ NUL # drop (strlen c + 1) (alloca e (strlen c + 128))) (strlen c)
           ('' & echo -n $! > '' @ pidfile_name n) = Some (cmd_buf e c n)
   \<and> length (cmd_buf e c n) = strlen c + 128
   \<and> length (take 80 content) \<le> length (cmd_buf e c n)
   \<and> (\<forall>t w w'. call e t c w = Undefined w' \<longrightarrow> cs_inits w = 0 \<and> initializing w \<noteq> 0)"
  using length_pidfile_name [of n] length_augmented [of c n] poke_name [of e n]
    poke_cmd [of e c] poke_suffix [of c e n] length_cmd_buf [of e c n]
    call_undefined_only_uninitialised [of e _ c]
  by auto

theorem buffer_writes_within_allocations_witness:
  "length (pidfile_name (- 2147483648)) + 1 \<le> 26
   \<and> pidfile_name (- 2147483648) = ''_yafu_system_.-2147483648''
   \<and> length (augmented ''ls'' (- 2147483648)) + 1 \<le> strlen ''ls'' + 42
   \<and> call platform_ok 0 ''ls'' (fresh\<lparr>initializing := 2\<rparr>) = Undefined (fresh\<lparr>initializing := 2\<rparr>)
   \<and> cs_inits (fresh\<lparr>initializing := 2\<rparr>) = 0"
proof -
  have n: "pidfile_name (- 2147483648) = ''_yafu_system_.-2147483648''"
    by (simp add: pidfile_name_def dec_def dec_nat.simps)
  have a: "after_init 0 (fresh\<lparr>initializing := 2\<rparr>) = fresh\<lparr>initializing := 2\<rparr>"
    by (simp add: after_init_def)
  have u: "call platform_ok 0 ''ls'' (fresh\<lparr>initializing := 2\<rparr>) = Undefined (fresh\<lparr>initializing := 2\<rparr>)"
    using path_uninitialised [of "fresh\<lparr>initializing := 2\<rparr>" 0 platform_ok "''ls''"]
    unfolding a by (simp add: fresh_def)
  show ?thesis
    using buffer_writes_within_allocations [of "- 2147483648" platform_ok "''ls''" "''1234''"] n u
    by blast
qed

section \<open>The other build\<close>

text \<open>
  C6. In the build for platforms without the hazard, \<^verbatim>\<open>safe_system(cmd)\<close> is the call
  \<^verbatim>\<open>system(cmd)\<close>: same result, the one call to \<^verbatim>\<open>system\<close> with the caller's string
  and no other call, no change to the flag, the counter or the critical section, and no
  change to the files but what \<^verbatim>\<open>system\<close> itself made.
\<close>

theorem native_build_is_pass_through:
  "safe_system_native e t c w = system_call e t (cstr c) w
   \<and> fst (safe_system_native e t c w) = fst (system_fn e (cstr c) (fs w))
   \<and> new_events w (snd (safe_system_native e t c w)) = [System (cstr c)]
   \<and> initializing (snd (safe_system_native e t c w)) = initializing w
   \<and> usecount (snd (safe_system_native e t c w)) = usecount w
   \<and> cs_inits (snd (safe_system_native e t c w)) = cs_inits w
   \<and> owner (snd (safe_system_native e t c w)) = owner w
   \<and> fs (snd (safe_system_native e t c w)) = snd (system_fn e (cstr c) (fs w))"
  by (simp add: safe_system_native_def system_call_def log_def new_events_def Let_def)

section \<open>The pid that is waited for\<close>

lemma dec_nat_1234: "dec_nat 1234 = ''1234''"
  by (simp add: dec_nat.simps)

lemma usecount_fresh: "usecount fresh = 0"
  by (simp add: fresh_def)

lemma augmented_cat: "augmented ''cat 3736009938'' 0 = ''cat 3736009938 & echo -n $! > _yafu_system_.0''"
  by (simp add: augmented_def pidfile_name_0 cstr_def NUL_def)

lemma augmented_digits: "augmented ''123456789 x'' 0 = ''123456789 x & echo -n $! > _yafu_system_.0''"
  by (simp add: augmented_def pidfile_name_0 cstr_def NUL_def)

lemma augmented_ls: "augmented ''ls'' 0 = ''ls & echo -n $! > _yafu_system_.0''"
  by (simp add: augmented_def pidfile_name_0 cstr_def NUL_def)

lemma digits_cat:
  "digits_val 0 (read_buf e ''cat 3736009938'' 0 ''1234'') = 12343736009938"
  using read_buf_dec_nat [of 1234 e "''cat 3736009938''" 0]
  by (simp add: dec_nat_1234 augmented_cat isdigit_def digit_val_def)

lemma digits_digits:
  "digits_val 0 (read_buf e ''123456789 x'' 0 ''1234'') = 123456789"
  using read_buf_dec_nat [of 1234 e "''123456789 x''" 0]
  by (simp add: dec_nat_1234 augmented_digits isdigit_def digit_val_def)

lemma parsed_cat: "parsed_pid e ''cat 3736009938'' fresh ''1234'' = 1234"
proof -
  have "strtol10 (read_buf e ''cat 3736009938'' 0 ''1234'') = 12343736009938"
    using read_buf_dec_nat [of 1234 e "''cat 3736009938''" 0]
    by (simp add: dec_nat_1234 augmented_cat strtol10_def isspace_def isdigit_def digit_val_def)
  then show ?thesis
    by (simp add: parsed_pid_def atoi_def usecount_fresh signed_of_int)
qed

section \<open>Threads: what every interleaving preserves\<close>

lemmas step_simps = stmt_def system_call_def log_def Let_def

lemma stmt_init_summary:
  assumes "stmt e t (w, fr) = (w', fr')" and "\<not> in_init (pc fr)"
  shows "initializing w' = initializing w \<and> cs_inits w' = cs_inits w \<and> \<not> in_init (pc fr')"
  using assms
  by (cases "pc fr") (auto simp: step_simps in_init_def split: option.splits if_splits HANDLE.splits)

lemma step_thread_simp:
  "t < length frs \<Longrightarrow>
     step_thread e (w, frs) t = (fst (stmt e t (w, frs ! t)), frs[t := snd (stmt e t (w, frs ! t))])"
  by (simp add: step_thread_def Let_def)

lemma step_thread_idle: "\<not> t < length (snd s) \<Longrightarrow> step_thread e s t = s"
  by (simp add: step_thread_def)

lemma stmt_L54:
  "pc fr = L54 \<Longrightarrow> stmt e t (w, fr) =
     (if initializing w = 0 then (w\<lparr>initializing := 1\<rparr>, fr\<lparr>pc := L55\<rparr>) else (w, fr\<lparr>pc := L58\<rparr>))"
  by (simp add: step_simps)

lemma stmt_L55:
  "pc fr = L55 \<Longrightarrow> stmt e t (w, fr) =
     (w\<lparr>cs_inits := cs_inits w + 1, owner := None, trace := trace w @ [(t, InitializeCriticalSection)]\<rparr>,
      fr\<lparr>pc := L56\<rparr>)"
  by (simp add: step_simps)

lemma stmt_L56:
  "pc fr = L56 \<Longrightarrow> stmt e t (w, fr) = (w, fr\<lparr>tmp := initializing w, pc := L56_store\<rparr>)"
  by (simp add: step_simps)

lemma stmt_L56_store:
  "pc fr = L56_store \<Longrightarrow> stmt e t (w, fr) = (w\<lparr>initializing := tmp fr + 1\<rparr>, fr\<lparr>pc := L63\<rparr>)"
  by (simp add: step_simps)

lemma stmt_L58:
  "pc fr = L58 \<Longrightarrow> stmt e t (w, fr) =
     (if initializing w = 1 then (w, fr\<lparr>pc := L59\<rparr>) else (w, fr\<lparr>pc := L63\<rparr>))"
  by (simp add: step_simps)

lemma stmt_L59:
  "pc fr = L59 \<Longrightarrow> stmt e t (w, fr) = (w\<lparr>trace := trace w @ [(t, Usleep 10000)]\<rparr>, fr\<lparr>pc := L58\<rparr>)"
  by (simp add: step_simps)

lemma inv_init_update:
  assumes t: "t < length frs"
    and old: "one_elected frs"
    and g: "glob_init w'"
    and me: "thr_init w' fr'"
    and others: "\<And>j. j < length frs \<Longrightarrow> j \<noteq> t \<Longrightarrow> thr_init w' (frs ! j)"
    and uniq: "electing (pc fr') \<Longrightarrow> (\<forall>j<length frs. j \<noteq> t \<longrightarrow> \<not> electing (pc (frs ! j)))"
  shows "inv_init (w', frs[t := fr'])"
proof -
  have a: "\<forall>j<length (frs[t := fr']). thr_init w' (frs[t := fr'] ! j)"
    using t me others by (simp add: nth_list_update)
  have b: "one_elected (frs[t := fr'])"
    unfolding one_elected_def
  proof (intro allI impI)
    fix i j
    assume i: "i < length (frs[t := fr'])" and j: "j < length (frs[t := fr'])"
      and el: "electing (pc (frs[t := fr'] ! i)) \<and> electing (pc (frs[t := fr'] ! j))"
    show "i = j"
    proof (cases "i = t")
      case it: True
      show ?thesis
      proof (cases "j = t")
        case True
        with it show ?thesis by simp
      next
        case False
        with it i j el t uniq show ?thesis by (auto simp: nth_list_update)
      qed
    next
      case inot: False
      show ?thesis
      proof (cases "j = t")
        case True
        with inot i j el t uniq show ?thesis by (auto simp: nth_list_update)
      next
        case False
        with inot i j el old show ?thesis by (auto simp: one_elected_def nth_list_update)
      qed
    qed
  qed
  show ?thesis using g a b by (simp add: inv_init_def)
qed

lemma in_init_cases:
  "in_init p \<Longrightarrow> p = L54 \<or> p = L55 \<or> p = L56 \<or> p = L56_store \<or> p = L58 \<or> p = L59"
  by (simp add: in_init_def)

lemma not_in_init_not_electing: "\<not> in_init p \<Longrightarrow> \<not> electing p"
  by (auto simp: in_init_def electing_def)

lemma thr_init_cong:
  "initializing w' = initializing w \<Longrightarrow> cs_inits w' = cs_inits w \<Longrightarrow> thr_init w' fr = thr_init w fr"
  by (simp add: thr_init_def)

lemma thr_init_L54: "pc fr = L54 \<Longrightarrow> thr_init w fr"
  by (simp add: thr_init_def electing_def in_init_def)

lemma thr_init_spin: "pc fr = L58 \<or> pc fr = L59 \<Longrightarrow> initializing w \<noteq> 0 \<Longrightarrow> thr_init w fr"
  by (auto simp: thr_init_def electing_def in_init_def)

lemma thr_init_L55: "pc fr = L55 \<Longrightarrow> initializing w = 1 \<Longrightarrow> cs_inits w = 0 \<Longrightarrow> thr_init w fr"
  by (simp add: thr_init_def electing_def in_init_def)

lemma thr_init_L56: "pc fr = L56 \<Longrightarrow> initializing w = 1 \<Longrightarrow> cs_inits w = 1 \<Longrightarrow> thr_init w fr"
  by (simp add: thr_init_def electing_def in_init_def)

lemma thr_init_L56_store:
  "pc fr = L56_store \<Longrightarrow> initializing w = 1 \<Longrightarrow> cs_inits w = 1 \<Longrightarrow> tmp fr = 1 \<Longrightarrow> thr_init w fr"
  by (simp add: thr_init_def electing_def in_init_def)

lemma thr_init_past: "\<not> in_init (pc fr) \<Longrightarrow> initializing w = 2 \<Longrightarrow> thr_init w fr"
  by (auto simp: thr_init_def electing_def in_init_def)

lemma thr_initD:
  assumes "thr_init w fr"
  shows "initializing w = 0 \<Longrightarrow> pc fr = L54"
    and "electing (pc fr) \<Longrightarrow> initializing w = 1"
    and "\<not> in_init (pc fr) \<Longrightarrow> initializing w = 2"
    and "pc fr = L55 \<Longrightarrow> cs_inits w = 0"
    and "pc fr = L56 \<or> pc fr = L56_store \<Longrightarrow> cs_inits w = 1"
    and "pc fr = L56_store \<Longrightarrow> tmp fr = 1"
  using assms unfolding thr_init_def by blast+

lemma word_012: "(0::32 word) \<noteq> 1" "(1::32 word) \<noteq> 2" "(0::32 word) \<noteq> 2"
  by simp_all

lemma others_waiting:
  assumes "thr_init w fr" "initializing w = 1" "\<not> electing (pc fr)"
  shows "pc fr = L54 \<or> pc fr = L58 \<or> pc fr = L59"
proof -
  have "in_init (pc fr)"
  proof (rule ccontr)
    assume "\<not> in_init (pc fr)"
    then have "initializing w = 2" by (rule thr_initD(3) [OF assms(1)])
    with assms(2) show False by simp
  qed
  with assms(3) show ?thesis unfolding in_init_def electing_def by blast
qed

lemma waiting_thr_init:
  "pc fr = L54 \<or> pc fr = L58 \<or> pc fr = L59 \<Longrightarrow> initializing w \<noteq> 0 \<Longrightarrow> thr_init w fr"
  using thr_init_L54 thr_init_spin by blast

lemma inv_init_step:
  assumes inv: "inv_init s"
  shows "inv_init (step_thread e s t)"
proof (cases "t < length (snd s)")
  case False
  then show ?thesis using assms by (simp add: step_thread_idle)
next
  case True
  obtain w frs where s: "s = (w, frs)" by (cases s)
  with True have t: "t < length frs" by simp
  from inv s have gl: "glob_init w" and all: "\<And>j. j < length frs \<Longrightarrow> thr_init w (frs ! j)"
    and one: "one_elected frs"
    by (simp_all add: inv_init_def)
  let ?fr = "frs ! t"
  note me = all [OF t]
  obtain w' fr' where st: "stmt e t (w, ?fr) = (w', fr')" by (cases "stmt e t (w, ?fr)")
  have step: "step_thread e s t = (w', frs[t := fr'])"
    using t st s by (simp add: step_thread_simp)
  have others_not_electing: "\<not> electing (pc (frs ! j))"
    if "electing (pc ?fr)" "j < length frs" "j \<noteq> t" for j
    using one that t unfolding one_elected_def by blast
  have "inv_init (w', frs[t := fr'])"
  proof (cases "in_init (pc ?fr)")
    case False
    from stmt_init_summary [OF st False]
    have u: "initializing w' = initializing w" "cs_inits w' = cs_inits w" "\<not> in_init (pc fr')"
      by simp_all
    have i2: "initializing w = 2" by (rule thr_initD(3) [OF me False])
    have ne: "\<not> electing (pc fr')" using u(3) by (rule not_in_init_not_electing)
    show ?thesis
    proof (rule inv_init_update [OF t one])
      show "glob_init w'" using gl u by (simp add: glob_init_def)
      show "thr_init w' fr'" by (rule thr_init_past [OF u(3)]) (simp add: u i2)
      show "thr_init w' (frs ! j)" if "j < length frs" "j \<noteq> t" for j
        using all [OF that(1)] thr_init_cong [OF u(1,2)] by simp
      show "\<forall>j<length frs. j \<noteq> t \<longrightarrow> \<not> electing (pc (frs ! j))" if "electing (pc fr')"
        using that ne by simp
    qed
  next
    case True
    then consider (a) "pc ?fr = L54" "initializing w = 0" | (b) "pc ?fr = L54" "initializing w \<noteq> 0"
      | (c) "pc ?fr = L55" | (d) "pc ?fr = L56" | (e) "pc ?fr = L56_store"
      | (f) "pc ?fr = L58" | (g) "pc ?fr = L59"
      using in_init_cases by blast
    then show ?thesis
    proof cases
      case a
      with st have r: "w' = w\<lparr>initializing := 1\<rparr>" "fr' = ?fr\<lparr>pc := L55\<rparr>"
        by (simp_all add: stmt_L54)
      have c0: "cs_inits w = 0" using gl a(2) unfolding glob_init_def by blast
      have at54: "pc (frs ! j) = L54" if "j < length frs" for j
        by (rule thr_initD(1) [OF all [OF that] a(2)])
      show ?thesis
      proof (rule inv_init_update [OF t one])
        show "glob_init w'" by (simp add: r c0 glob_init_def)
        show "thr_init w' fr'" by (rule thr_init_L55) (simp_all add: r c0)
        show "thr_init w' (frs ! j)" if "j < length frs" "j \<noteq> t" for j
          by (rule thr_init_L54 [OF at54 [OF that(1)]])
        show "\<forall>j<length frs. j \<noteq> t \<longrightarrow> \<not> electing (pc (frs ! j))" if "electing (pc fr')"
          using at54 by (simp add: electing_def)
      qed
    next
      case b
      with st have r: "w' = w" "fr' = ?fr\<lparr>pc := L58\<rparr>"
        by (simp_all add: stmt_L54)
      show ?thesis
      proof (rule inv_init_update [OF t one])
        show "glob_init w'" using gl r by simp
        show "thr_init w' fr'" by (rule thr_init_spin) (simp_all add: r b(2))
        show "thr_init w' (frs ! j)" if "j < length frs" "j \<noteq> t" for j
          using all [OF that(1)] r by simp
        show "\<forall>j<length frs. j \<noteq> t \<longrightarrow> \<not> electing (pc (frs ! j))" if "electing (pc fr')"
          using that r by (simp add: electing_def)
      qed
    next
      case c
      with st have r: "w' = w\<lparr>cs_inits := cs_inits w + 1, owner := None, trace := trace w @ [(t, InitializeCriticalSection)]\<rparr>"
        "fr' = ?fr\<lparr>pc := L56\<rparr>"
        by (simp_all add: stmt_L55)
      from c have el: "electing (pc ?fr)" by (simp add: electing_def)
      have i1: "initializing w = 1" by (rule thr_initD(2) [OF me el])
      have c0: "cs_inits w = 0" by (rule thr_initD(4) [OF me c])
      have i1': "initializing w' = 1" "cs_inits w' = 1" using r i1 c0 by simp_all
      show ?thesis
      proof (rule inv_init_update [OF t one])
        show "glob_init w'" using i1' by (simp add: glob_init_def)
        show "thr_init w' fr'" by (rule thr_init_L56) (simp_all add: r i1 c0)
        show "thr_init w' (frs ! j)" if "j < length frs" "j \<noteq> t" for j
        proof (rule waiting_thr_init)
          show "pc (frs ! j) = L54 \<or> pc (frs ! j) = L58 \<or> pc (frs ! j) = L59"
            by (rule others_waiting [OF all [OF that(1)] i1 others_not_electing [OF el that]])
          show "initializing w' \<noteq> 0" using i1' by simp
        qed
        show "\<forall>j<length frs. j \<noteq> t \<longrightarrow> \<not> electing (pc (frs ! j))" if "electing (pc fr')"
          using others_not_electing [OF el] by blast
      qed
    next
      case d
      with st have r: "w' = w" "fr' = ?fr\<lparr>tmp := initializing w, pc := L56_store\<rparr>"
        by (auto simp: stmt_L56)
      from d have el: "electing (pc ?fr)" by (simp add: electing_def)
      have i1: "initializing w = 1" by (rule thr_initD(2) [OF me el])
      have c1: "cs_inits w = 1" by (rule thr_initD(5) [OF me]) (simp add: d)
      show ?thesis
      proof (rule inv_init_update [OF t one])
        show "glob_init w'" using gl r by simp
        show "thr_init w' fr'" by (rule thr_init_L56_store) (simp_all add: r i1 c1)
        show "thr_init w' (frs ! j)" if "j < length frs" "j \<noteq> t" for j
          using all [OF that(1)] r by simp
        show "\<forall>j<length frs. j \<noteq> t \<longrightarrow> \<not> electing (pc (frs ! j))" if "electing (pc fr')"
          using others_not_electing [OF el] by blast
      qed
    next
      case e
      with st have r: "w' = w\<lparr>initializing := tmp ?fr + 1\<rparr>" "fr' = ?fr\<lparr>pc := L63\<rparr>"
        by (simp_all add: stmt_L56_store)
      from e have el: "electing (pc ?fr)" by (simp add: electing_def)
      have i1: "initializing w = 1" by (rule thr_initD(2) [OF me el])
      have c1: "cs_inits w = 1" by (rule thr_initD(5) [OF me]) (simp add: e)
      have t1: "tmp ?fr = 1" by (rule thr_initD(6) [OF me e])
      have w2: "initializing w' = 2" "cs_inits w' = 1" using r t1 c1 by simp_all
      show ?thesis
      proof (rule inv_init_update [OF t one])
        show "glob_init w'" using w2 by (simp add: glob_init_def)
        show "thr_init w' fr'" by (rule thr_init_past) (simp_all add: r in_init_def t1)
        show "thr_init w' (frs ! j)" if "j < length frs" "j \<noteq> t" for j
        proof (rule waiting_thr_init)
          show "pc (frs ! j) = L54 \<or> pc (frs ! j) = L58 \<or> pc (frs ! j) = L59"
            by (rule others_waiting [OF all [OF that(1)] i1 others_not_electing [OF el that]])
          show "initializing w' \<noteq> 0" using w2 by simp
        qed
        show "\<forall>j<length frs. j \<noteq> t \<longrightarrow> \<not> electing (pc (frs ! j))" if "electing (pc fr')"
          using that r by (simp add: electing_def)
      qed
    next
      case f
      have n0: "initializing w \<noteq> 0"
        using thr_initD(1) [OF me] f by auto
      from f st have r: "w' = w" "fr' = ?fr\<lparr>pc := (if initializing w = 1 then L59 else L63)\<rparr>"
        by (simp_all add: stmt_L58 split: if_splits)
      show ?thesis
      proof (rule inv_init_update [OF t one])
        show "glob_init w'" using gl r by simp
        show "thr_init w' fr'"
        proof (cases "initializing w = 1")
          case True
          then show ?thesis using r n0 by (intro thr_init_spin) simp_all
        next
          case False
          with n0 gl have "initializing w = 2" unfolding glob_init_def by blast
          then show ?thesis using r False by (intro thr_init_past) (simp_all add: in_init_def)
        qed
        show "thr_init w' (frs ! j)" if "j < length frs" "j \<noteq> t" for j
          using all [OF that(1)] r by simp
        show "\<forall>j<length frs. j \<noteq> t \<longrightarrow> \<not> electing (pc (frs ! j))" if "electing (pc fr')"
          using that r by (simp add: electing_def split: if_splits)
      qed
    next
      case g
      have n0: "initializing w \<noteq> 0"
        using thr_initD(1) [OF me] g by auto
      from g st have r: "w' = w\<lparr>trace := trace w @ [(t, Usleep 10000)]\<rparr>" "fr' = ?fr\<lparr>pc := L58\<rparr>"
        by (simp_all add: stmt_L59)
      have u: "initializing w' = initializing w" "cs_inits w' = cs_inits w" using r by simp_all
      show ?thesis
      proof (rule inv_init_update [OF t one])
        show "glob_init w'" using gl u by (simp add: glob_init_def)
        show "thr_init w' fr'" by (rule thr_init_spin) (simp_all add: r n0)
        show "thr_init w' (frs ! j)" if "j < length frs" "j \<noteq> t" for j
          using all [OF that(1)] thr_init_cong [OF u] by simp
        show "\<forall>j<length frs. j \<noteq> t \<longrightarrow> \<not> electing (pc (frs ! j))" if "electing (pc fr')"
          using that r by (simp add: electing_def)
      qed
    qed
  qed
  then show ?thesis by (simp add: step)
qed

lemmas poke_simps = poke_name [simplified] poke_cmd [simplified] poke_suffix [simplified]

lemma frame_ok_step:
  assumes "frame_ok e fr" and "pc fr = L69 \<longrightarrow> cs_inits w \<noteq> 0"
    and "stmt e t (w, fr) = (w', fr')"
  shows "frame_ok e fr'"
proof (cases "pc fr")
  case L72_store
  with assms show ?thesis
    by (auto simp: frame_ok_def named_def in_init_def step_simps poke_simps)
next
  case L73
  with assms show ?thesis
    by (auto simp: frame_ok_def named_def in_init_def step_simps poke_simps)
next
  case L75
  with assms show ?thesis
    by (auto simp: frame_ok_def named_def in_init_def step_simps poke_simps cstr_name_buf)
next
  case L88
  with assms(1) obtain y where y: "fp fr = Some y" and b: "buf fr = cmd_buf e (cmd fr) (tmp fr)"
    and n: "pidfilename fr = name_buf e (tmp fr)"
    by (auto simp: frame_ok_def named_def in_init_def)
  have "length (take 80 y) \<le> length (buf fr)"
    by (simp add: b length_cmd_buf)
  with assms(3) L88 y have "fr' = fr\<lparr>buf := take 80 y @ drop (length (take 80 y)) (buf fr), pc := L89\<rparr>"
    by (auto simp: step_simps)
  then show ?thesis using n
    by (simp add: frame_ok_def named_def in_init_def)
next
  case L100
  with assms show ?thesis
    by (cases "hdl fr") (auto simp: frame_ok_def named_def in_init_def step_simps split: if_splits)
qed (use assms in \<open>auto simp: frame_ok_def named_def in_init_def step_simps split: if_splits\<close>)

lemma stmt_outside:
  assumes "stmt e t (w, fr) = (w', fr')" and "frame_ok e fr"
    and "\<not> in_cs (pc fr)" and "pc fr \<noteq> L69" and "pc fr \<noteq> L55"
  shows "owner w' = owner w \<and> usecount w' = usecount w \<and> acquired w' = acquired w
         \<and> \<not> in_cs (pc fr') \<and> entered (pc fr') = entered (pc fr) \<and> taken (pc fr') = taken (pc fr)
         \<and> (taken (pc fr) \<longrightarrow> tmp fr' = tmp fr)"
proof (cases "pc fr")
  case L88
  with assms(2) obtain y where y: "fp fr = Some y" and b: "buf fr = cmd_buf e (cmd fr) (tmp fr)"
    by (auto simp: frame_ok_def)
  have "length (take 80 y) \<le> length (buf fr)"
    by (simp add: b length_cmd_buf)
  with assms(1) L88 y have "fr' = fr\<lparr>buf := take 80 y @ drop (length (take 80 y)) (buf fr), pc := L89\<rparr>"
    and "w' = log t (Fread 1 80) w"
    by (auto simp: stmt_def Let_def)
  then show ?thesis using L88
    by (simp add: log_def acquired_def in_cs_def entered_def taken_def named_def in_init_def)
next
  case L100
  with assms show ?thesis
    by (cases "hdl fr")
       (auto simp: step_simps acquired_def in_cs_def entered_def taken_def named_def in_init_def
             split: if_splits)
qed (use assms in \<open>auto simp: step_simps frame_ok_def acquired_def in_cs_def entered_def taken_def
       named_def in_init_def split: if_splits option.splits\<close>)

lemma stmt_inside:
  assumes "stmt e t (w, fr) = (w', fr')" and "frame_ok e fr"
    and "pc fr = L73 \<or> pc fr = L75 \<or> pc fr = L79 \<or> pc fr = L81"
  shows "owner w' = owner w \<and> usecount w' = usecount w \<and> acquired w' = acquired w
         \<and> in_cs (pc fr') \<and> named (pc fr') \<and> tmp fr' = tmp fr"
  using assms(3)
proof (elim disjE)
  assume "pc fr = L73"
  with assms(1,2) show ?thesis
    by (auto simp: step_simps frame_ok_def poke_simps acquired_def in_cs_def named_def in_init_def)
next
  assume "pc fr = L75"
  with assms(1,2) show ?thesis
    by (auto simp: step_simps frame_ok_def poke_simps cstr_name_buf acquired_def in_cs_def named_def in_init_def)
next
  assume "pc fr = L79"
  with assms(1,2) show ?thesis
    by (auto simp: step_simps acquired_def in_cs_def named_def in_init_def)
next
  assume "pc fr = L81"
  with assms(1,2) show ?thesis
    by (auto simp: step_simps acquired_def in_cs_def named_def in_init_def)
qed

lemma stmt_L69:
  assumes "pc fr = L69" and "cs_inits w \<noteq> 0"
  shows "stmt e t (w, fr) =
           (if owner w = None
            then (w\<lparr>owner := Some t, trace := trace w @ [(t, EnterCriticalSection)]\<rparr>, fr\<lparr>pc := L72\<rparr>)
            else (w, fr))"
  using assms by (simp add: step_simps)

lemma stmt_L72: "pc fr = L72 \<Longrightarrow> stmt e t (w, fr) = (w, fr\<lparr>tmp := usecount w, pc := L72_store\<rparr>)"
  by (simp add: step_simps)

lemma stmt_L72_store:
  assumes "pc fr = L72_store" and "frame_ok e fr"
  shows "stmt e t (w, fr) =
           (w\<lparr>usecount := tmp fr + 1\<rparr>, fr\<lparr>pidfilename := name_buf e (tmp fr), pc := L73\<rparr>)"
  using assms by (simp add: step_simps frame_ok_def poke_simps)

lemma stmt_L82:
  "pc fr = L82 \<Longrightarrow> stmt e t (w, fr) =
     (w\<lparr>owner := None, trace := trace w @ [(t, LeaveCriticalSection)]\<rparr>, fr\<lparr>pc := L85\<rparr>)"
  by (simp add: step_simps)

lemma acquired_append [simp]:
  "acquired (w\<lparr>trace := trace w @ [(t, ev)]\<rparr>) =
     acquired w @ (if ev = EnterCriticalSection then [t] else [])"
  by (simp add: acquired_def)

lemma acquired_cong [simp]:
  "acquired (w\<lparr>owner := x\<rparr>) = acquired w" "acquired (w\<lparr>usecount := y\<rparr>) = acquired w"
  "acquired (w\<lparr>cs_inits := z\<rparr>) = acquired w" "acquired (w\<lparr>initializing := i\<rparr>) = acquired w"
  by (simp_all add: acquired_def)

lemma in_cs_cases:
  "in_cs p \<Longrightarrow> p = L72 \<or> p = L72_store \<or> p = L73 \<or> p = L75 \<or> p = L79 \<or> p = L81 \<or> p = L82"
  by (simp add: in_cs_def)

lemma in_cs_not_in_init: "in_cs p \<Longrightarrow> \<not> in_init p"
  by (auto simp: in_cs_def in_init_def)

lemma in_cs_entered: "in_cs p \<Longrightarrow> entered p"
  by (auto simp: in_cs_def entered_def taken_def named_def in_init_def)

lemma pending_quiet:
  assumes "t < length frs" and "acquired w' = acquired w"
    and "(pc fr' = L72 \<or> pc fr' = L72_store) = (pc (frs ! t) = L72 \<or> pc (frs ! t) = L72_store)"
  shows "pending (w', frs[t := fr']) = pending (w, frs)"
proof (cases "last (acquired w) = t")
  case True
  then show ?thesis using assms by (simp add: pending_def)
next
  case False
  then show ?thesis using assms by (simp add: pending_def)
qed

lemma inv_lock_iff:
  "inv_lock (w, frs) =
     ((\<forall>j<length frs. in_cs (pc (frs ! j)) \<longrightarrow> owner w = Some j)
      \<and> (\<forall>t. owner w = Some t \<longrightarrow> t < length frs \<and> in_cs (pc (frs ! t))))"
  by (simp add: inv_lock_def)

lemma inv_lockD:
  assumes "inv_lock (w, frs)"
  shows "\<And>j. j < length frs \<Longrightarrow> in_cs (pc (frs ! j)) \<Longrightarrow> owner w = Some j"
    and "\<And>u. owner w = Some u \<Longrightarrow> u < length frs \<and> in_cs (pc (frs ! u))"
  using assms unfolding inv_lock_iff by blast+

lemma inv_lockI:
  assumes "\<And>j. j < length frs \<Longrightarrow> in_cs (pc (frs ! j)) \<Longrightarrow> owner w = Some j"
    and "\<And>u. owner w = Some u \<Longrightarrow> u < length frs \<and> in_cs (pc (frs ! u))"
  shows "inv_lock (w, frs)"
  unfolding inv_lock_iff using assms by blast

lemma inv_lock_quiet:
  assumes inv: "inv_lock (w, frs)" and t: "t < length frs" and o: "owner w' = owner w"
    and cs: "in_cs (pc fr') = in_cs (pc (frs ! t))"
  shows "inv_lock (w', frs[t := fr'])"
proof (rule inv_lockI)
  fix j assume j: "j < length (frs[t := fr'])" and c: "in_cs (pc (frs[t := fr'] ! j))"
  have "in_cs (pc (frs ! j))"
  proof (cases "j = t")
    case True
    with c t cs show ?thesis by simp
  next
    case False
    with c show ?thesis by simp
  qed
  with inv_lockD(1) [OF inv, of j] j o show "owner w' = Some j" by simp
next
  fix u assume "owner w' = Some u"
  with o inv_lockD(2) [OF inv, of u] have u: "u < length frs" "in_cs (pc (frs ! u))" by simp_all
  have "in_cs (pc (frs[t := fr'] ! u))"
  proof (cases "u = t")
    case True
    with u t cs show ?thesis by simp
  next
    case False
    with u show ?thesis by simp
  qed
  with u show "u < length (frs[t := fr']) \<and> in_cs (pc (frs[t := fr'] ! u))" by simp
qed

lemma inv_count_iff:
  "inv_count c0 (w, frs) =
     (distinct (acquired w)
      \<and> (\<forall>t \<in> set (acquired w). t < length frs)
      \<and> (\<forall>j<length frs. entered (pc (frs ! j)) \<longleftrightarrow> j \<in> set (acquired w))
      \<and> (\<forall>k<length (acquired w).
            taken (pc (frs ! (acquired w ! k))) \<longrightarrow> tmp (frs ! (acquired w ! k)) = c0 + of_nat k)
      \<and> (\<forall>j<length frs. in_cs (pc (frs ! j)) \<longrightarrow> acquired w \<noteq> [] \<and> last (acquired w) = j)
      \<and> usecount w = c0 + of_nat (length (acquired w) - (if pending (w, frs) then 1 else 0)))"
  by (simp add: inv_count_def)

lemma inv_countD:
  assumes "inv_count c0 (w, frs)"
  shows "distinct (acquired w)"
    and "\<And>x. x \<in> set (acquired w) \<Longrightarrow> x < length frs"
    and "\<And>j. j < length frs \<Longrightarrow> entered (pc (frs ! j)) \<longleftrightarrow> j \<in> set (acquired w)"
    and "\<And>k. k < length (acquired w) \<Longrightarrow> taken (pc (frs ! (acquired w ! k))) \<Longrightarrow>
            tmp (frs ! (acquired w ! k)) = c0 + of_nat k"
    and "\<And>j. j < length frs \<Longrightarrow> in_cs (pc (frs ! j)) \<Longrightarrow> acquired w \<noteq> [] \<and> last (acquired w) = j"
    and "usecount w = c0 + of_nat (length (acquired w) - (if pending (w, frs) then 1 else 0))"
  using assms unfolding inv_count_iff by blast+

lemma inv_countI:
  assumes "distinct (acquired w)"
    and "\<And>x. x \<in> set (acquired w) \<Longrightarrow> x < length frs"
    and "\<And>j. j < length frs \<Longrightarrow> entered (pc (frs ! j)) \<longleftrightarrow> j \<in> set (acquired w)"
    and "\<And>k. k < length (acquired w) \<Longrightarrow> taken (pc (frs ! (acquired w ! k))) \<Longrightarrow>
            tmp (frs ! (acquired w ! k)) = c0 + of_nat k"
    and "\<And>j. j < length frs \<Longrightarrow> in_cs (pc (frs ! j)) \<Longrightarrow> acquired w \<noteq> [] \<and> last (acquired w) = j"
    and "usecount w = c0 + of_nat (length (acquired w) - (if pending (w, frs) then 1 else 0))"
  shows "inv_count c0 (w, frs)"
  unfolding inv_count_iff using assms by blast

lemma inv_count_quiet:
  assumes inv: "inv_count c0 (w, frs)" and t: "t < length frs"
    and u: "usecount w' = usecount w" and a: "acquired w' = acquired w"
    and cs: "in_cs (pc fr') \<longrightarrow> in_cs (pc (frs ! t))"
    and en: "entered (pc fr') = entered (pc (frs ! t))"
    and tk: "taken (pc fr') = taken (pc (frs ! t))"
    and tm: "taken (pc (frs ! t)) \<longrightarrow> tmp fr' = tmp (frs ! t)"
    and pe: "(pc fr' = L72 \<or> pc fr' = L72_store) = (pc (frs ! t) = L72 \<or> pc (frs ! t) = L72_store)"
  shows "inv_count c0 (w', frs[t := fr'])"
proof -
  let ?a = "acquired w"
  note d = inv_countD(1) [OF inv] and b = inv_countD(2) [OF inv] and e = inv_countD(3) [OF inv]
    and i = inv_countD(4) [OF inv] and l = inv_countD(5) [OF inv] and c = inv_countD(6) [OF inv]
  have p: "pending (w', frs[t := fr']) = pending (w, frs)"
    using t a pe by (rule pending_quiet)
  show ?thesis
  proof (rule inv_countI)
    show "distinct (acquired w')" using d a by simp
    show "x < length (frs[t := fr'])" if "x \<in> set (acquired w')" for x
      using b [of x] that a by simp
    show "entered (pc (frs[t := fr'] ! j)) \<longleftrightarrow> j \<in> set (acquired w')"
      if "j < length (frs[t := fr'])" for j
    proof (cases "j = t")
      case True
      then show ?thesis using e [OF t] en t a by simp
    next
      case False
      then show ?thesis using e [of j] that a by simp
    qed
    show "tmp (frs[t := fr'] ! (acquired w' ! k)) = c0 + of_nat k"
      if "k < length (acquired w')" "taken (pc (frs[t := fr'] ! (acquired w' ! k)))" for k
    proof (cases "?a ! k = t")
      case True
      with that tk t a have tt: "taken (pc (frs ! t))" by simp
      from that a True have "tmp (frs ! t) = c0 + of_nat k"
        using i [of k] tt by simp
      with tm tt True t a show ?thesis by simp
    next
      case False
      with that a show ?thesis using i [of k] by simp
    qed
    show "acquired w' \<noteq> [] \<and> last (acquired w') = j"
      if "j < length (frs[t := fr'])" "in_cs (pc (frs[t := fr'] ! j))" for j
    proof (cases "j = t")
      case True
      with that cs t have "in_cs (pc (frs ! t))" by simp
      with l [OF t] True a show ?thesis by simp
    next
      case False
      with that a show ?thesis using l [of j] by simp
    qed
    show "usecount w' = c0 + of_nat (length (acquired w') - (if pending (w', frs[t := fr']) then 1 else 0))"
      unfolding p a u by (rule c)
  qed
qed

lemma not_pending_free:
  assumes c: "inv_count c0 (w, frs)" and free: "\<And>j. j < length frs \<Longrightarrow> \<not> in_cs (pc (frs ! j))"
  shows "\<not> pending (w, frs)"
proof
  assume p: "pending (w, frs)"
  then have ne: "acquired w \<noteq> []" by (simp add: pending_def)
  then have "last (acquired w) \<in> set (acquired w)" by simp
  then have "last (acquired w) < length frs" by (rule inv_countD(2) [OF c])
  then have "\<not> in_cs (pc (frs ! last (acquired w)))" by (rule free)
  with p show False by (auto simp: pending_def in_cs_def)
qed

lemma acquire_step:
  assumes l: "inv_lock (w, frs)" and c: "inv_count c0 (w, frs)" and t: "t < length frs"
    and at: "pc (frs ! t) = L69" and free: "owner w = None"
    and o': "owner w' = Some t" and u': "usecount w' = usecount w"
    and a': "acquired w' = acquired w @ [t]" and p': "pc fr' = L72"
  shows "inv_lock (w', frs[t := fr'])" and "inv_count c0 (w', frs[t := fr'])"
proof -
  let ?a = "acquired w"
  have nobody: "\<not> in_cs (pc (frs ! j))" if "j < length frs" for j
    using inv_lockD(1) [OF l that] free by auto
  have tn: "t \<notin> set ?a"
    using inv_countD(3) [OF c t] at by (simp add: entered_def taken_def named_def)
  show "inv_lock (w', frs[t := fr'])"
  proof (rule inv_lockI)
    fix j assume j: "j < length (frs[t := fr'])" and i: "in_cs (pc (frs[t := fr'] ! j))"
    have "j = t"
    proof (rule ccontr)
      assume "j \<noteq> t"
      with i have "in_cs (pc (frs ! j))" by simp
      with nobody [of j] j show False by simp
    qed
    with o' show "owner w' = Some j" by simp
  next
    fix u assume "owner w' = Some u"
    with o' have "u = t" by simp
    with t p' show "u < length (frs[t := fr']) \<and> in_cs (pc (frs[t := fr'] ! u))"
      by (simp add: in_cs_def)
  qed
  show "inv_count c0 (w', frs[t := fr'])"
  proof (rule inv_countI)
    show "distinct (acquired w')" using inv_countD(1) [OF c] tn a' by simp
    show "x < length (frs[t := fr'])" if "x \<in> set (acquired w')" for x
      using that a' t inv_countD(2) [OF c, of x] by auto
    show "entered (pc (frs[t := fr'] ! j)) \<longleftrightarrow> j \<in> set (acquired w')"
      if "j < length (frs[t := fr'])" for j
    proof (cases "j = t")
      case True
      then show ?thesis using t p' a' by (simp add: entered_def)
    next
      case False
      then show ?thesis using that a' inv_countD(3) [OF c, of j] by simp
    qed
    show "tmp (frs[t := fr'] ! (acquired w' ! k)) = c0 + of_nat k"
      if "k < length (acquired w')" "taken (pc (frs[t := fr'] ! (acquired w' ! k)))" for k
    proof (cases "k < length ?a")
      case True
      then have e: "acquired w' ! k = ?a ! k" using a' by (simp add: nth_append)
      from True have "?a ! k \<in> set ?a" by simp
      with tn have ne: "?a ! k \<noteq> t" by auto
      with that e have "taken (pc (frs ! (?a ! k)))" by simp
      with inv_countD(4) [OF c True] ne e show ?thesis by simp
    next
      case False
      with that(1) a' have "acquired w' ! k = t" by (simp add: nth_append)
      with that(2) t p' show ?thesis by (simp add: taken_def named_def in_init_def)
    qed
    show "acquired w' \<noteq> [] \<and> last (acquired w') = j"
      if "j < length (frs[t := fr'])" "in_cs (pc (frs[t := fr'] ! j))" for j
    proof -
      have "j = t"
      proof (rule ccontr)
        assume "j \<noteq> t"
        with that have "in_cs (pc (frs ! j))" by simp
        with nobody [of j] that show False by simp
      qed
      with a' show ?thesis by simp
    qed
    have np: "\<not> pending (w, frs)" using c nobody by (rule not_pending_free)
    have p: "pending (w', frs[t := fr'])" using a' t p' by (simp add: pending_def)
    show "usecount w' = c0 + of_nat (length (acquired w') - (if pending (w', frs[t := fr']) then 1 else 0))"
      using inv_countD(6) [OF c] np p a' u' by simp
  qed
qed

lemma holder_is_last:
  assumes c: "inv_count c0 (w, frs)" and t: "t < length frs" and i: "in_cs (pc (frs ! t))"
  shows "acquired w \<noteq> []" and "last (acquired w) = t"
    and "acquired w ! (length (acquired w) - 1) = t"
    and "\<And>k. k < length (acquired w) \<Longrightarrow> acquired w ! k = t \<Longrightarrow> k = length (acquired w) - 1"
proof -
  from inv_countD(5) [OF c t i] show ne: "acquired w \<noteq> []" and la: "last (acquired w) = t"
    by simp_all
  from ne la show nth: "acquired w ! (length (acquired w) - 1) = t"
    by (simp add: last_conv_nth)
  fix k assume k: "k < length (acquired w)" and e: "acquired w ! k = t"
  have m: "length (acquired w) - 1 < length (acquired w)" using ne by simp
  from e nth have "acquired w ! k = acquired w ! (length (acquired w) - 1)" by simp
  then show "k = length (acquired w) - 1"
    using nth_eq_iff_index_eq [OF inv_countD(1) [OF c] k m] by blast
qed

lemma load_step:
  assumes c: "inv_count c0 (w, frs)" and t: "t < length frs"
    and at: "pc (frs ! t) = L72"
    and u': "usecount w' = usecount w" and a': "acquired w' = acquired w"
    and p': "pc fr' = L72_store" and t': "tmp fr' = usecount w"
  shows "inv_count c0 (w', frs[t := fr'])"
proof -
  let ?a = "acquired w"
  from at have i: "in_cs (pc (frs ! t))" by (simp add: in_cs_def)
  note h = holder_is_last [OF c t i]
  have pend: "pending (w, frs)" using h(1,2) at by (simp add: pending_def)
  have pend': "pending (w', frs[t := fr'])" using h(1,2) a' t p' by (simp add: pending_def)
  have uc: "usecount w = c0 + of_nat (length ?a - 1)"
    using inv_countD(6) [OF c] pend by simp
  show ?thesis
  proof (rule inv_countI)
    show "distinct (acquired w')" using inv_countD(1) [OF c] a' by simp
    show "x < length (frs[t := fr'])" if "x \<in> set (acquired w')" for x
      using that a' inv_countD(2) [OF c, of x] by simp
    show "entered (pc (frs[t := fr'] ! j)) \<longleftrightarrow> j \<in> set (acquired w')"
      if "j < length (frs[t := fr'])" for j
    proof (cases "j = t")
      case True
      then show ?thesis using t p' a' at inv_countD(3) [OF c t]
        by (simp add: entered_def taken_def)
    next
      case False
      then show ?thesis using that a' inv_countD(3) [OF c, of j] by simp
    qed
    show "tmp (frs[t := fr'] ! (acquired w' ! k)) = c0 + of_nat k"
      if "k < length (acquired w')" "taken (pc (frs[t := fr'] ! (acquired w' ! k)))" for k
    proof (cases "?a ! k = t")
      case True
      with that(1) a' have "k = length ?a - 1" using h(4) [of k] by simp
      with True t t' uc a' show ?thesis by simp
    next
      case False
      with that a' show ?thesis using inv_countD(4) [OF c, of k] by simp
    qed
    show "acquired w' \<noteq> [] \<and> last (acquired w') = j"
      if "j < length (frs[t := fr'])" "in_cs (pc (frs[t := fr'] ! j))" for j
    proof (cases "j = t")
      case True
      with h(1,2) a' show ?thesis by simp
    next
      case False
      with that a' show ?thesis using inv_countD(5) [OF c, of j] by simp
    qed
    show "usecount w' = c0 + of_nat (length (acquired w') - (if pending (w', frs[t := fr']) then 1 else 0))"
      using uc pend' a' u' by simp
  qed
qed

lemma store_step:
  assumes c: "inv_count c0 (w, frs)" and t: "t < length frs"
    and at: "pc (frs ! t) = L72_store"
    and u': "usecount w' = tmp (frs ! t) + 1" and a': "acquired w' = acquired w"
    and p': "pc fr' = L73" and t': "tmp fr' = tmp (frs ! t)"
  shows "inv_count c0 (w', frs[t := fr'])"
proof -
  let ?a = "acquired w"
  from at have i: "in_cs (pc (frs ! t))" by (simp add: in_cs_def)
  note h = holder_is_last [OF c t i]
  have lt: "length ?a - 1 < length ?a" using h(1) by simp
  have tk: "taken (pc (frs ! (?a ! (length ?a - 1))))"
    unfolding h(3) by (simp add: at taken_def)
  have "tmp (frs ! (?a ! (length ?a - 1))) = c0 + of_nat (length ?a - 1)"
    by (rule inv_countD(4) [OF c lt tk])
  then have tm: "tmp (frs ! t) = c0 + of_nat (length ?a - 1)" unfolding h(3) .
  have npend': "\<not> pending (w', frs[t := fr'])" using h(1,2) a' t p' by (simp add: pending_def)
  have "of_nat (length ?a - 1) + (1 :: 32 word) = of_nat (length ?a)"
    using h(1) by (cases ?a) simp_all
  with tm u' have uc: "usecount w' = c0 + of_nat (length ?a)"
    by (simp add: add.assoc)
  show ?thesis
  proof (rule inv_countI)
    show "distinct (acquired w')" using inv_countD(1) [OF c] a' by simp
    show "x < length (frs[t := fr'])" if "x \<in> set (acquired w')" for x
      using that a' inv_countD(2) [OF c, of x] by simp
    show "entered (pc (frs[t := fr'] ! j)) \<longleftrightarrow> j \<in> set (acquired w')"
      if "j < length (frs[t := fr'])" for j
    proof (cases "j = t")
      case True
      then show ?thesis using t p' a' at inv_countD(3) [OF c t]
        by (simp add: entered_def taken_def named_def in_init_def)
    next
      case False
      then show ?thesis using that a' inv_countD(3) [OF c, of j] by simp
    qed
    show "tmp (frs[t := fr'] ! (acquired w' ! k)) = c0 + of_nat k"
      if "k < length (acquired w')" "taken (pc (frs[t := fr'] ! (acquired w' ! k)))" for k
    proof (cases "?a ! k = t")
      case True
      with that(1) a' have "k = length ?a - 1" using h(4) [of k] by simp
      with True t t' tm a' show ?thesis by simp
    next
      case False
      with that a' show ?thesis using inv_countD(4) [OF c, of k] by simp
    qed
    show "acquired w' \<noteq> [] \<and> last (acquired w') = j"
      if "j < length (frs[t := fr'])" "in_cs (pc (frs[t := fr'] ! j))" for j
    proof (cases "j = t")
      case True
      with h(1,2) a' show ?thesis by simp
    next
      case False
      with that a' show ?thesis using inv_countD(5) [OF c, of j] by simp
    qed
    show "usecount w' = c0 + of_nat (length (acquired w') - (if pending (w', frs[t := fr']) then 1 else 0))"
      using uc npend' a' by simp
  qed
qed

lemma leave_step_lock:
  assumes l: "inv_lock (w, frs)" and t: "t < length frs" and at: "in_cs (pc (frs ! t))"
    and o': "owner w' = None" and p': "\<not> in_cs (pc fr')"
  shows "inv_lock (w', frs[t := fr'])"
proof (rule inv_lockI)
  fix j assume j: "j < length (frs[t := fr'])" and i: "in_cs (pc (frs[t := fr'] ! j))"
  have jt: "j \<noteq> t" using i t p' by auto
  with i have "in_cs (pc (frs ! j))" by simp
  with inv_lockD(1) [OF l, of j] j have "owner w = Some j" by simp
  moreover have "owner w = Some t" by (rule inv_lockD(1) [OF l t at])
  ultimately show "owner w' = Some j" using jt by simp
next
  fix u assume "owner w' = Some u"
  with o' show "u < length (frs[t := fr']) \<and> in_cs (pc (frs[t := fr'] ! u))" by simp
qed

lemma not_in_cs_not_pending_pc: "\<not> in_cs p \<Longrightarrow> \<not> (p = L72 \<or> p = L72_store)"
  by (auto simp: in_cs_def)

lemma named_props: "named p \<Longrightarrow> taken p \<and> entered p \<and> \<not> (p = L72 \<or> p = L72_store)"
  by (auto simp: named_def taken_def entered_def)

lemma inside_named: "p = L73 \<or> p = L75 \<or> p = L79 \<or> p = L81 \<or> p = L82 \<Longrightarrow> named p \<and> in_cs p"
  by (auto simp: named_def in_init_def in_cs_def)

lemma inv_initD:
  assumes "inv_init (w, frs)"
  shows "glob_init w" and "\<And>j. j < length frs \<Longrightarrow> thr_init w (frs ! j)" and "one_elected frs"
  using assms by (simp_all add: inv_init_def)

lemma past_init_initialised:
  assumes "inv_init (w, frs)" and "j < length frs" and "\<not> in_init (pc (frs ! j))"
  shows "initializing w = 2" and "cs_inits w = 1"
proof -
  show i: "initializing w = 2"
    by (rule thr_initD(3) [OF inv_initD(2) [OF assms(1,2)] assms(3)])
  with inv_initD(1) [OF assms(1)] show "cs_inits w = 1"
    unfolding glob_init_def by blast
qed

lemma inv_all_step_pair:
  assumes ii: "inv_init (w, frs)" and fo: "\<And>j. j < length frs \<Longrightarrow> frame_ok e (frs ! j)"
    and l: "inv_lock (w, frs)" and c: "inv_count c0 (w, frs)"
    and t: "t < length frs" and st: "stmt e t (w, frs ! t) = (w', fr')"
  shows "inv_lock (w', frs[t := fr']) \<and> inv_count c0 (w', frs[t := fr'])"
proof -
  let ?fr = "frs ! t"
  note fok = fo [OF t]
  consider (enter) "pc ?fr = L69" | (load) "pc ?fr = L72" | (store) "pc ?fr = L72_store"
    | (inside) "pc ?fr = L73 \<or> pc ?fr = L75 \<or> pc ?fr = L79 \<or> pc ?fr = L81"
    | (leave) "pc ?fr = L82" | (init) "pc ?fr = L55"
    | (outside) "\<not> in_cs (pc ?fr)" "pc ?fr \<noteq> L69" "pc ?fr \<noteq> L55"
    unfolding in_cs_def by blast
  then show ?thesis
  proof cases
    case enter
    then have "\<not> in_init (pc ?fr)" by (simp add: in_init_def)
    from past_init_initialised(2) [OF ii t this] have cs: "cs_inits w \<noteq> 0" by simp
    show ?thesis
    proof (cases "owner w = None")
      case True
      with st enter cs have r: "w' = w\<lparr>owner := Some t, trace := trace w @ [(t, EnterCriticalSection)]\<rparr>"
        "fr' = ?fr\<lparr>pc := L72\<rparr>"
        by (simp_all add: stmt_L69)
      have a: "acquired w' = acquired w @ [t]" by (simp add: r acquired_def)
      have "inv_lock (w', frs[t := fr'])"
        by (rule acquire_step(1) [OF l c t enter True _ _ a]) (simp_all add: r)
      moreover have "inv_count c0 (w', frs[t := fr'])"
        by (rule acquire_step(2) [OF l c t enter True _ _ a]) (simp_all add: r)
      ultimately show ?thesis by simp
    next
      case False
      with st enter cs have "w' = w" "fr' = ?fr" by (simp_all add: stmt_L69)
      then show ?thesis using l c by simp
    qed
  next
    case load
    with st have r: "w' = w" "fr' = ?fr\<lparr>tmp := usecount w, pc := L72_store\<rparr>"
      by (auto simp: stmt_L72)
    have "inv_lock (w', frs[t := fr'])"
      by (rule inv_lock_quiet [OF l t]) (simp_all add: r load in_cs_def)
    moreover have "inv_count c0 (w', frs[t := fr'])"
      by (rule load_step [OF c t load]) (simp_all add: r)
    ultimately show ?thesis by simp
  next
    case store
    with st fok have r: "w' = w\<lparr>usecount := tmp ?fr + 1\<rparr>"
      "fr' = ?fr\<lparr>pidfilename := name_buf e (tmp ?fr), pc := L73\<rparr>"
      by (simp_all add: stmt_L72_store)
    have "inv_lock (w', frs[t := fr'])"
      by (rule inv_lock_quiet [OF l t]) (simp_all add: r store in_cs_def)
    moreover have "inv_count c0 (w', frs[t := fr'])"
      by (rule store_step [OF c t store]) (simp_all add: r)
    ultimately show ?thesis by simp
  next
    case inside
    from stmt_inside [OF st fok inside]
    have r: "owner w' = owner w" "usecount w' = usecount w" "acquired w' = acquired w"
      "in_cs (pc fr')" "named (pc fr')" "tmp fr' = tmp ?fr"
      by simp_all
    from inside have n: "named (pc ?fr)" "in_cs (pc ?fr)"
      using inside_named [of "pc ?fr"] by blast+
    note np = named_props [OF n(1)] and np' = named_props [OF r(5)]
    have "inv_lock (w', frs[t := fr'])"
      by (rule inv_lock_quiet [OF l t r(1)]) (simp add: r(4) n(2))
    moreover have "inv_count c0 (w', frs[t := fr'])"
      by (rule inv_count_quiet [OF c t r(2,3)]) (use r n np np' in simp_all)
    ultimately show ?thesis by simp
  next
    case leave
    with st have r: "w' = w\<lparr>owner := None, trace := trace w @ [(t, LeaveCriticalSection)]\<rparr>"
      "fr' = ?fr\<lparr>pc := L85\<rparr>"
      by (simp_all add: stmt_L82)
    from leave have n: "named (pc ?fr)" "in_cs (pc ?fr)"
      using inside_named [of "pc ?fr"] by blast+
    have n': "named (pc fr')" "\<not> in_cs (pc fr')"
      by (simp_all add: r named_def in_init_def in_cs_def)
    note np = named_props [OF n(1)] and np' = named_props [OF n'(1)]
    have "inv_lock (w', frs[t := fr'])"
      by (rule leave_step_lock [OF l t n(2)]) (simp_all add: r in_cs_def)
    moreover have "inv_count c0 (w', frs[t := fr'])"
      by (rule inv_count_quiet [OF c t]) (use r n n' np np' in \<open>simp_all add: acquired_def\<close>)
    ultimately show ?thesis by simp
  next
    case init
    with st have r: "w' = w\<lparr>cs_inits := cs_inits w + 1, owner := None, trace := trace w @ [(t, InitializeCriticalSection)]\<rparr>"
      "fr' = ?fr\<lparr>pc := L56\<rparr>"
      by (simp_all add: stmt_L55)
    from init have el: "electing (pc ?fr)" by (simp add: electing_def)
    have i1: "initializing w = 1" by (rule thr_initD(2) [OF inv_initD(2) [OF ii t] el])
    have free: "owner w = None"
    proof (cases "owner w")
      case (Some u)
      from inv_lockD(2) [OF l Some] have u: "u < length frs" "in_cs (pc (frs ! u))" by simp_all
      from past_init_initialised(1) [OF ii u(1) in_cs_not_in_init [OF u(2)]] i1
      show ?thesis by simp
    qed simp
    have q: "owner w' = owner w" "usecount w' = usecount w" "acquired w' = acquired w"
      using r free by (simp_all add: acquired_def)
    have pcs: "\<not> in_cs (pc ?fr)" "\<not> in_cs (pc fr')" "\<not> entered (pc ?fr)" "\<not> entered (pc fr')"
      "\<not> taken (pc ?fr)" "\<not> taken (pc fr')"
      using init r by (simp_all add: in_cs_def entered_def taken_def named_def in_init_def)
    have "inv_lock (w', frs[t := fr'])"
      by (rule inv_lock_quiet [OF l t q(1)]) (simp add: pcs)
    moreover have "inv_count c0 (w', frs[t := fr'])"
      by (rule inv_count_quiet [OF c t q(2,3)]) (use pcs init r in simp_all)
    ultimately show ?thesis by simp
  next
    case outside
    from stmt_outside [OF st fok outside]
    have r: "owner w' = owner w" "usecount w' = usecount w" "acquired w' = acquired w"
      "\<not> in_cs (pc fr')" "entered (pc fr') = entered (pc ?fr)" "taken (pc fr') = taken (pc ?fr)"
      "taken (pc ?fr) \<longrightarrow> tmp fr' = tmp ?fr"
      by simp_all
    note pp = not_in_cs_not_pending_pc [OF outside(1)] and pp' = not_in_cs_not_pending_pc [OF r(4)]
    have "inv_lock (w', frs[t := fr'])"
      by (rule inv_lock_quiet [OF l t r(1)]) (simp add: r(4) outside(1))
    moreover have "inv_count c0 (w', frs[t := fr'])"
      by (rule inv_count_quiet [OF c t r(2,3)]) (use r pp pp' outside in simp_all)
    ultimately show ?thesis by simp
  qed
qed

lemma trace_ok_step:
  assumes "trace_ok w" and "stmt e t (w, fr) = (w', fr')"
  shows "trace_ok w'"
proof (cases "pc fr")
  case L100
  with assms show ?thesis
    by (cases "hdl fr") (auto simp: step_simps trace_ok_def inits_def sleeps_10ms_def split: if_splits)
qed (use assms in \<open>auto simp: step_simps trace_ok_def inits_def sleeps_10ms_def
       split: if_splits option.splits\<close>)

lemma inv_all_iff:
  "inv_all e c0 (w, frs) =
     (inv_init (w, frs) \<and> (\<forall>j<length frs. frame_ok e (frs ! j)) \<and> inv_lock (w, frs) \<and> inv_count c0 (w, frs))"
  by (simp add: inv_all_def)

lemma inv_all_step:
  assumes inv: "inv_all e c0 s"
  shows "inv_all e c0 (step_thread e s t)"
proof (cases "t < length (snd s)")
  case False
  then show ?thesis using inv by (simp add: step_thread_idle)
next
  case True
  obtain w frs where s: "s = (w, frs)" by (cases s)
  with True have t: "t < length frs" by simp
  from inv s have inv': "inv_all e c0 (w, frs)" by simp
  then have ii: "inv_init (w, frs)" and fo: "\<And>j. j < length frs \<Longrightarrow> frame_ok e (frs ! j)"
    and l: "inv_lock (w, frs)" and c: "inv_count c0 (w, frs)"
    unfolding inv_all_iff by blast+
  obtain w' fr' where st: "stmt e t (w, frs ! t) = (w', fr')" by (cases "stmt e t (w, frs ! t)")
  have step: "step_thread e s t = (w', frs[t := fr'])"
    using t st s by (simp add: step_thread_simp)
  have a: "inv_init (w', frs[t := fr'])"
    using inv_init_step [OF ii, of e t] step s by simp
  have cs: "pc (frs ! t) = L69 \<longrightarrow> cs_inits w \<noteq> 0"
  proof
    assume "pc (frs ! t) = L69"
    then have "\<not> in_init (pc (frs ! t))" by (simp add: in_init_def)
    from past_init_initialised(2) [OF ii t this] show "cs_inits w \<noteq> 0" by simp
  qed
  have f': "frame_ok e fr'" by (rule frame_ok_step [OF fo [OF t] cs st])
  have b: "\<forall>j<length (frs[t := fr']). frame_ok e (frs[t := fr'] ! j)"
  proof (intro allI impI)
    fix j assume "j < length (frs[t := fr'])"
    then show "frame_ok e (frs[t := fr'] ! j)"
      using f' fo [of j] by (cases "j = t") simp_all
  qed
  from inv_all_step_pair [OF ii fo l c t st]
  have d: "inv_lock (w', frs[t := fr'])" "inv_count c0 (w', frs[t := fr'])" by simp_all
  show ?thesis unfolding step inv_all_iff using a b d by blast
qed

lemma exec_Nil [simp]: "exec e [] s = s"
  by (simp add: exec_def)

lemma exec_Cons [simp]: "exec e (t # sched) s = exec e sched (step_thread e s t)"
  by (simp add: exec_def)

lemma inv_all_exec: "inv_all e c0 s \<Longrightarrow> inv_all e c0 (exec e sched s)"
proof (induction sched arbitrary: s)
  case Nil
  then show ?case by simp
next
  case (Cons t sched)
  from Cons.prems have "inv_all e c0 (step_thread e s t)" by (rule inv_all_step)
  then show ?case using Cons.IH by simp
qed

lemma trace_ok_step_thread: "trace_ok (fst s) \<Longrightarrow> trace_ok (fst (step_thread e s t))"
proof (cases "t < length (snd s)")
  case False
  assume "trace_ok (fst s)"
  with False show ?thesis by (simp add: step_thread_idle)
next
  case True
  assume ok: "trace_ok (fst s)"
  obtain w frs where s: "s = (w, frs)" by (cases s)
  obtain w' fr' where st: "stmt e t (w, frs ! t) = (w', fr')" by (cases "stmt e t (w, frs ! t)")
  from ok s have "trace_ok w" by simp
  then have "trace_ok w'" using st by (rule trace_ok_step)
  then show ?thesis using True s st by (simp add: step_thread_simp)
qed

lemma trace_ok_exec: "trace_ok (fst s) \<Longrightarrow> trace_ok (fst (exec e sched s))"
proof (induction sched arbitrary: s)
  case Nil
  then show ?case by simp
next
  case (Cons t sched)
  from Cons.prems have "trace_ok (fst (step_thread e s t))" by (rule trace_ok_step_thread)
  then show ?case using Cons.IH by simp
qed

lemma length_step_thread [simp]: "length (snd (step_thread e s t)) = length (snd s)"
  by (simp add: step_thread_def Let_def)

lemma length_exec [simp]: "length (snd (exec e sched s)) = length (snd s)"
  by (induction sched arbitrary: s) simp_all

lemma frame_ok_entry: "frame_ok e (entry c)"
  by (simp add: frame_ok_def entry_def named_def in_init_def)

lemma inv_all_boot:
  assumes "boot w"
  shows "inv_all e (usecount w) (w, map entry cmds)"
proof -
  from assms have b: "initializing w = 0" "cs_inits w = 0" "owner w = None" "trace w = []"
    by (simp_all add: boot_def)
  have p: "pc (map entry cmds ! j) = L54" if "j < length cmds" for j
    using that by simp
  have "inv_init (w, map entry cmds)"
    unfolding inv_init_def using b p
    by (auto simp: glob_init_def one_elected_def electing_def intro: thr_init_L54)
  moreover have "\<forall>j<length (map entry cmds). frame_ok e (map entry cmds ! j)"
    by (simp add: frame_ok_entry)
  moreover have "inv_lock (w, map entry cmds)"
    by (rule inv_lockI) (use b p in \<open>simp_all add: in_cs_def\<close>)
  moreover have "inv_count (usecount w) (w, map entry cmds)"
    by (rule inv_countI)
       (use b p in \<open>simp_all add: acquired_def pending_def in_cs_def entered_def taken_def named_def in_init_def\<close>)
  ultimately show ?thesis unfolding inv_all_iff by blast
qed

lemma trace_ok_boot: "boot w \<Longrightarrow> trace_ok w"
  by (simp add: boot_def trace_ok_def inits_def sleeps_10ms_def)

lemma sint_add_of_nat:
  assumes "sint (c :: 32 word) + int k \<le> 2147483647"
  shows "sint (c + of_nat k) = sint c + int k"
proof -
  have "c + of_nat k = word_of_int (sint c + int k)" by simp
  then have "sint (c + of_nat k) = signed_take_bit 31 (sint c + int k)"
    by (simp only: signed_of_int) simp
  also have "\<dots> = sint c + int k"
  proof (rule signed_take_bit_int_eq_self)
    have "- (2 ^ 31) \<le> sint c" using sint_ge [of c] by simp
    then show "- (2 ^ 31) \<le> sint c + int k" by simp
    show "sint c + int k < 2 ^ 31" using assms by simp
  qed
  finally show ?thesis .
qed

lemma length_acquired_le:
  assumes "inv_count c0 (w, frs)"
  shows "length (acquired w) \<le> length frs"
proof -
  have "set (acquired w) \<subseteq> {..<length frs}"
    using inv_countD(2) [OF assms] by auto
  then have "card (set (acquired w)) \<le> card {..<length frs}"
    by (intro card_mono) simp_all
  then show ?thesis
    using distinct_card [OF inv_countD(1) [OF assms]] by simp
qed

section \<open>One call, statement by statement\<close>

lemma iter_finished: "finished c \<Longrightarrow> iter e t n c = c"
  by (cases n) simp_all

lemma iter_add: "iter e t (m + n) c = iter e t n (iter e t m c)"
proof (induction m arbitrary: c)
  case 0
  show ?case by simp
next
  case (Suc m)
  show ?case
  proof (cases "finished c")
    case True
    then show ?thesis by (simp add: iter_finished)
  next
    case False
    then show ?thesis using Suc.IH by simp
  qed
qed

lemma iter_to_L63:
  assumes "initializing w \<noteq> 1"
  shows "iter e t (if initializing w = 0 then 4 else 2) (w, entry c) =
           (after_init t w, (entry c)\<lparr>tmp := (if initializing w = 0 then 1 else tmp (entry c)), pc := L63\<rparr>)"
proof (cases "initializing w = 0")
  case True
  then show ?thesis using iter_init_elected [of "entry c" w e t] by simp
next
  case False
  then show ?thesis using iter_init_other [of "entry c" w e t] assms by simp
qed

lemma iter_to_L85:
  assumes "ready t w"
  shows "\<exists>fr. iter e t (if initializing w = 0 then 14 else 12) (w, entry c) =
                (submitted e t c (after_init t w), fr) \<and>
              pc fr = L85 \<and> cmd fr = c \<and> cstr (pidfilename fr) = pidfile_name (usecount w) \<and>
              buf fr = cmd_buf e c (usecount w) \<and> ret fr = status e c w \<and> tmp fr = usecount w"
proof -
  let ?fr = "(entry c)\<lparr>tmp := (if initializing w = 0 then 1 else tmp (entry c)), pc := L63\<rparr>"
  let ?w = "after_init t w"
  let ?fr' = "?fr\<lparr>pidfilename := name_buf e (usecount ?w),
                     buf := cmd_buf e (cmd ?fr) (usecount ?w),
                     ptr := strlen (cmd ?fr), tmp := usecount ?w,
                     ret := fst (system_fn e (augmented (cmd ?fr) (usecount ?w)) (fs ?w)),
                     pc := L85\<rparr>"
  from assms have i: "initializing w \<noteq> 1" and r: "cs_inits ?w \<noteq> 0" "owner ?w = None"
    by (simp_all add: ready_def)
  have a: "iter e t 10 (?w, ?fr) = (submitted e t (cmd ?fr) ?w, ?fr')"
    by (rule iter_submit) (use r in simp_all)
  have n: "(if initializing w = 0 then 14 else 12) = (if initializing w = 0 then 4 else 2) + (10::nat)"
    by simp
  have "iter e t (if initializing w = 0 then 14 else 12) (w, entry c) = iter e t 10 (?w, ?fr)"
    unfolding n iter_add iter_to_L63 [OF i] ..
  also have "\<dots> = (submitted e t c ?w, ?fr')" using a by simp
  finally have "iter e t (if initializing w = 0 then 14 else 12) (w, entry c) = (submitted e t c ?w, ?fr')" .
  moreover have "pc ?fr' = L85" "cmd ?fr' = c" "cstr (pidfilename ?fr') = pidfile_name (usecount w)"
    "buf ?fr' = cmd_buf e c (usecount w)" "ret ?fr' = status e c w" "tmp ?fr' = usecount w"
    by (simp_all add: cstr_name_buf status_def)
  ultimately show ?thesis by blast
qed

lemma iter_to_L100:
  assumes "ready t w" "handoff e c w = Some content"
  shows "\<exists>fr. iter e t (steps_to_wait w) (w, entry c) = (recovered e t c w content, fr) \<and>
              pc fr = L100 \<and> cmd fr = c \<and> ret fr = status e c w \<and>
              cstr (pidfilename fr) = pidfile_name (usecount w) \<and> tmp fr = usecount w \<and>
              fp fr = Some content \<and>
              buf fr = read_buf e c (usecount w) content \<and>
              pid fr = atoi (read_buf e c (usecount w) content) \<and>
              winpid fr = pid_to_winpid e (pid fr) \<and>
              hdl fr = opened e (pid fr)"
proof -
  from iter_to_L85 [OF assms(1), of e c] obtain fr where
    fr: "iter e t (if initializing w = 0 then 14 else 12) (w, entry c) =
           (submitted e t c (after_init t w), fr)"
      "pc fr = L85" "cmd fr = c" "cstr (pidfilename fr) = pidfile_name (usecount w)"
      "buf fr = cmd_buf e c (usecount w)" "ret fr = status e c w" "tmp fr = usecount w"
    by blast
  let ?w2 = "submitted e t c (after_init t w)"
  let ?B = "take 80 content @ drop (length (take 80 content)) (buf fr)"
  let ?fr' = "fr\<lparr>fp := Some content, buf := ?B, pid := atoi ?B,
               winpid := pid_to_winpid e (atoi ?B), hdl := opened e (atoi ?B), pc := L100\<rparr>"
  have B: "?B = read_buf e c (usecount w) content"
    by (simp add: read_buf_def fr(5))
  have "iter e t 9 (?w2, fr) =
           (?w2\<lparr>fs := (fs ?w2)(cstr (pidfilename fr) := None),
              trace := trace ?w2 @
                [(t, Fopen (cstr (pidfilename fr)) ''r''), (t, Fread 1 80), (t, Fclose),
                 (t, Remove (cstr (pidfilename fr))),
                 (t, Cygwin_internal_pid_to_winpid (atoi ?B)),
                 (t, OpenProcess [SYNCHRONIZE] False (pid_to_winpid e (atoi ?B)))]\<rparr>, ?fr')"
    by (rule iter_recover) (use fr assms length_take_le_cmd_buf in simp_all)
  also have "\<dots> = (recovered e t c w content, ?fr')"
    unfolding B fr(4) by (simp add: recovered_def parsed_pid_def Let_def)
  finally have nine: "iter e t 9 (?w2, fr) = (recovered e t c w content, ?fr')" .
  have n: "steps_to_wait w = (if initializing w = 0 then 14 else 12) + 9"
    by (simp add: steps_to_wait_def)
  have "iter e t (steps_to_wait w) (w, entry c) = (recovered e t c w content, ?fr')"
    unfolding n iter_add fr(1) nine ..
  moreover have "pc ?fr' = L100" "cmd ?fr' = c" "ret ?fr' = status e c w"
    "cstr (pidfilename ?fr') = pidfile_name (usecount w)" "tmp ?fr' = usecount w"
    "fp ?fr' = Some content"
    "buf ?fr' = read_buf e c (usecount w) content"
    "pid ?fr' = atoi (read_buf e c (usecount w) content)"
    "winpid ?fr' = pid_to_winpid e (pid ?fr')" "hdl ?fr' = opened e (pid ?fr')"
    using fr(3,4,6,7) unfolding B by simp_all
  ultimately show ?thesis by blast
qed

lemma stmt_at_wait:
  assumes "pc fr = L100"
  shows "stmt e t (w, fr) =
           (if waits_forever e (hdl fr) then (w, fr)
            else (log t (WaitForSingleObject (hdl fr) INFINITE) w, fr\<lparr>pc := L101\<rparr>))"
  using assms by (cases "hdl fr") (simp_all add: step_simps waits_forever_def)

section \<open>The claims about concurrent calls\<close>

text \<open>
  C8. Any number of calls start in a fresh process and their statements run in any order.
  \<^verbatim>\<open>InitializeCriticalSection\<close> is called at most once; at any moment at most one thread
  is between its successful compare-and-exchange and its store of 2 into the flag, and the
  flag reads 1 exactly then; every thread that is past lines 54-60 finds the flag at 2 and
  the critical section initialised exactly once; no thread enters a critical section that
  was not initialised; every sleep of the waiting loop is 10 ms.
\<close>

theorem critical_section_initialised_exactly_once:
  assumes "boot w0" and "exec e sched (w0, map entry cmds) = (w, frs)"
  shows "cs_inits w \<le> 1
         \<and> length (filter (\<lambda>x. snd x = InitializeCriticalSection) (trace w)) = cs_inits w
         \<and> (initializing w = 0 \<or> initializing w = 1 \<or> initializing w = 2)
         \<and> (\<forall>i<length frs. \<forall>j<length frs. electing (pc (frs ! i)) \<and> electing (pc (frs ! j)) \<longrightarrow> i = j)
         \<and> (\<forall>j<length frs. electing (pc (frs ! j)) \<longrightarrow> initializing w = 1)
         \<and> (\<forall>j<length frs. \<not> in_init (pc (frs ! j)) \<longrightarrow> initializing w = 2 \<and> cs_inits w = 1)
         \<and> (\<forall>j<length frs. pc (frs ! j) \<noteq> Undefined_behaviour)
         \<and> (\<forall>x \<in> set (trace w). \<forall>k. snd x = Usleep k \<longrightarrow> k = 10000)"
proof -
  have "inv_all e (usecount w0) (exec e sched (w0, map entry cmds))"
    by (rule inv_all_exec [OF inv_all_boot [OF assms(1)]])
  then have inv: "inv_all e (usecount w0) (w, frs)" by (simp add: assms(2))
  then have ii: "inv_init (w, frs)" and fo: "\<And>j. j < length frs \<Longrightarrow> frame_ok e (frs ! j)"
    unfolding inv_all_iff by blast+
  have "trace_ok (fst (exec e sched (w0, map entry cmds)))"
    by (rule trace_ok_exec) (simp add: trace_ok_boot [OF assms(1)])
  then have tr: "inits w = cs_inits w" "sleeps_10ms w"
    by (simp_all add: assms(2) trace_ok_def)
  note g = inv_initD(1) [OF ii]
  have a: "cs_inits w \<le> 1" using g unfolding glob_init_def by auto
  have b: "initializing w = 0 \<or> initializing w = 1 \<or> initializing w = 2"
    using g unfolding glob_init_def by blast
  have c: "\<forall>i<length frs. \<forall>j<length frs. electing (pc (frs ! i)) \<and> electing (pc (frs ! j)) \<longrightarrow> i = j"
    using inv_initD(3) [OF ii] unfolding one_elected_def .
  have d: "\<forall>j<length frs. electing (pc (frs ! j)) \<longrightarrow> initializing w = 1"
    using thr_initD(2) [OF inv_initD(2) [OF ii]] by blast
  have f: "\<forall>j<length frs. \<not> in_init (pc (frs ! j)) \<longrightarrow> initializing w = 2 \<and> cs_inits w = 1"
    using past_init_initialised [OF ii] by blast
  have h: "\<forall>j<length frs. pc (frs ! j) \<noteq> Undefined_behaviour"
    using fo unfolding frame_ok_def by blast
  show ?thesis
    using a b c d f h tr unfolding inits_def sleeps_10ms_def by blast
qed

lemma boot_fresh: "boot fresh"
  by (simp add: boot_def fresh_def)

lemma race_example:
  "exec platform_ok [0, 1, 0, 1, 0, 0, 1, 1] (fresh, map entry [''a'', ''b'']) =
     (fresh\<lparr>initializing := 2, cs_inits := 1,
            trace := [(0, InitializeCriticalSection), (1, Usleep 10000)]\<rparr>,
      [(entry ''a'')\<lparr>tmp := 1, pc := L63\<rparr>, (entry ''b'')\<lparr>pc := L63\<rparr>])"
  by (simp add: step_thread_def step_simps entry_def fresh_def)

theorem critical_section_initialised_exactly_once_witness:
  "boot fresh
   \<and> exec platform_ok [0, 1, 0, 1, 0, 0, 1, 1] (fresh, map entry [''a'', ''b'']) =
       (fresh\<lparr>initializing := 2, cs_inits := 1,
              trace := [(0, InitializeCriticalSection), (1, Usleep 10000)]\<rparr>,
        [(entry ''a'')\<lparr>tmp := 1, pc := L63\<rparr>, (entry ''b'')\<lparr>pc := L63\<rparr>])
   \<and> cs_inits (fst (exec platform_ok [0, 1, 0, 1, 0, 0, 1, 1] (fresh, map entry [''a'', ''b'']))) \<le> 1
   \<and> initializing (fst (exec platform_ok [0, 1, 0, 1, 0, 0, 1, 1] (fresh, map entry [''a'', ''b'']))) = 2"
proof -
  let ?s = "exec platform_ok [0, 1, 0, 1, 0, 0, 1, 1] (fresh, map entry [''a'', ''b''])"
  have p: "?s = (fst ?s, snd ?s)" by simp
  note t = critical_section_initialised_exactly_once [OF boot_fresh p]
  have l: "0 < length (snd ?s)" by simp
  have "\<not> in_init (pc (snd ?s ! 0))"
    unfolding race_example by (simp add: in_init_def)
  with t l have "initializing (fst ?s) = 2" by blast
  moreover from t have "cs_inits (fst ?s) \<le> 1" by blast
  ultimately show ?thesis using boot_fresh race_example by blast
qed

text \<open>
  C4, as far as the counter does not overflow. Calls start in a fresh process whose
  counter is \<open>usecount w0\<close>, with room for one increment per call below INT\_MAX. However
  their statements interleave: each call enters the critical section at most once; the
  call that is \<open>k\<close>-th to enter reads the counter value \<open>usecount w0 + k\<close> and names its file
  with the prefix and the decimal of that value; a call reads and writes the counter only
  while it owns the critical section; the counter has been incremented once for every call
  that entered, but the one that may still be at line 72; the names of two calls differ.
\<close>

theorem handoff_identifiers_follow_lock_order:
  assumes "boot w0" and "exec e sched (w0, map entry cmds) = (w, frs)"
    and "sint (usecount w0) + int (length cmds) \<le> 2147483647"
  shows "distinct (acquired w)
         \<and> (\<forall>k<length (acquired w). taken (pc (frs ! (acquired w ! k))) \<longrightarrow>
               sint (tmp (frs ! (acquired w ! k))) = sint (usecount w0) + int k)
         \<and> (\<forall>k<length (acquired w). named (pc (frs ! (acquired w ! k))) \<longrightarrow>
               cstr (pidfilename (frs ! (acquired w ! k))) =
                 ''_yafu_system_.'' @ dec (sint (usecount w0) + int k))
         \<and> (\<forall>j<length frs. pc (frs ! j) = L72 \<or> pc (frs ! j) = L72_store \<longrightarrow> owner w = Some j)
         \<and> sint (usecount w) =
             sint (usecount w0) + int (length (acquired w) - (if pending (w, frs) then 1 else 0))
         \<and> (\<forall>i<length frs. \<forall>j<length frs.
               named (pc (frs ! i)) \<and> named (pc (frs ! j)) \<and> i \<noteq> j \<longrightarrow>
               cstr (pidfilename (frs ! i)) \<noteq> cstr (pidfilename (frs ! j)))"
proof -
  let ?c0 = "usecount w0"
  let ?a = "acquired w"
  have "inv_all e ?c0 (exec e sched (w0, map entry cmds))"
    by (rule inv_all_exec [OF inv_all_boot [OF assms(1)]])
  then have inv: "inv_all e ?c0 (w, frs)" by (simp add: assms(2))
  then have fo: "\<And>j. j < length frs \<Longrightarrow> frame_ok e (frs ! j)"
    and l: "inv_lock (w, frs)" and c: "inv_count ?c0 (w, frs)"
    unfolding inv_all_iff by blast+
  have "length (snd (exec e sched (w0, map entry cmds))) = length cmds" by simp
  then have n: "length frs = length cmds" by (simp add: assms(2))
  have la: "length ?a \<le> length cmds" using length_acquired_le [OF c] n by simp
  have bound: "sint ?c0 + int k \<le> 2147483647" if "k \<le> length ?a" for k
    using that la assms(3) by simp
  have ids: "sint (tmp (frs ! (?a ! k))) = sint ?c0 + int k"
    if "k < length ?a" "taken (pc (frs ! (?a ! k)))" for k
  proof -
    have "tmp (frs ! (?a ! k)) = ?c0 + of_nat k" by (rule inv_countD(4) [OF c that])
    then show ?thesis using sint_add_of_nat [OF bound, of k] that(1) by simp
  qed
  have names: "cstr (pidfilename (frs ! (?a ! k))) = ''_yafu_system_.'' @ dec (sint ?c0 + int k)"
    if "k < length ?a" "named (pc (frs ! (?a ! k)))" for k
  proof -
    have j: "?a ! k < length frs" using inv_countD(2) [OF c, of "?a ! k"] that(1) by simp
    have "pidfilename (frs ! (?a ! k)) = name_buf e (tmp (frs ! (?a ! k)))"
      using fo [OF j] that(2) unfolding frame_ok_def by blast
    then have "cstr (pidfilename (frs ! (?a ! k))) = pidfile_name (tmp (frs ! (?a ! k)))"
      by (simp add: cstr_name_buf)
    also have "\<dots> = ''_yafu_system_.'' @ dec (sint (tmp (frs ! (?a ! k))))"
      by (simp add: pidfile_name_def)
    also have "sint (tmp (frs ! (?a ! k))) = sint ?c0 + int k"
      using ids [OF that(1)] that(2) by (simp add: taken_def)
    finally show ?thesis .
  qed
  have holder: "owner w = Some j" if "j < length frs" "pc (frs ! j) = L72 \<or> pc (frs ! j) = L72_store" for j
    by (rule inv_lockD(1) [OF l that(1)]) (use that(2) in \<open>auto simp: in_cs_def\<close>)
  have count: "sint (usecount w) = sint ?c0 + int (length ?a - (if pending (w, frs) then 1 else 0))"
  proof -
    let ?m = "length ?a - (if pending (w, frs) then 1 else 0)"
    have "usecount w = ?c0 + of_nat ?m" by (rule inv_countD(6) [OF c])
    moreover have "sint (?c0 + of_nat ?m) = sint ?c0 + int ?m"
      by (rule sint_add_of_nat [OF bound]) simp
    ultimately show ?thesis by simp
  qed
  have differ: "cstr (pidfilename (frs ! i)) \<noteq> cstr (pidfilename (frs ! j))"
    if "i < length frs" "j < length frs" "named (pc (frs ! i))" "named (pc (frs ! j))" "i \<noteq> j" for i j
  proof -
    from that(3,4) have "entered (pc (frs ! i))" "entered (pc (frs ! j))"
      by (simp_all add: entered_def taken_def)
    with inv_countD(3) [OF c] that(1,2) have "i \<in> set ?a" "j \<in> set ?a" by simp_all
    then obtain k k' where k: "k < length ?a" "?a ! k = i" and k': "k' < length ?a" "?a ! k' = j"
      by (auto simp: in_set_conv_nth)
    with that(5) have ne: "k \<noteq> k'" by auto
    have "cstr (pidfilename (frs ! i)) = ''_yafu_system_.'' @ dec (sint ?c0 + int k)"
      using names [OF k(1)] k(2) that(3) by simp
    moreover have "cstr (pidfilename (frs ! j)) = ''_yafu_system_.'' @ dec (sint ?c0 + int k')"
      using names [OF k'(1)] k'(2) that(4) by simp
    moreover have "dec (sint ?c0 + int k) \<noteq> dec (sint ?c0 + int k')"
      using dec_inject [of "sint ?c0 + int k" "sint ?c0 + int k'"] ne by auto
    ultimately show ?thesis by simp
  qed
  show ?thesis
    using inv_countD(1) [OF c] ids names holder count differ by blast
qed

lemmas poke_0 = poke_name [of _ 0, simplified] poke_name [of _ 1, simplified]

lemmas run_simps = step_thread_def step_simps poke_simps poke_0 cstr_name_buf cstr_cmd_buf

lemma two_calls_pcs: "map pc (snd two_calls) = [L85, L73]"
  by (simp add: two_calls_def run_simps entry_def fresh_def)

lemma two_calls_acquired: "acquired (fst two_calls) = [0, 1]"
  by (simp add: two_calls_def run_simps entry_def fresh_def acquired_def)

lemma two_calls_pc0: "pc (snd two_calls ! 0) = L85"
  by (simp add: two_calls_def run_simps entry_def fresh_def)

lemma two_calls_pc1: "pc (snd two_calls ! Suc 0) = L73"
  by (simp add: two_calls_def run_simps entry_def fresh_def)

theorem handoff_identifiers_follow_lock_order_witness:
  "boot fresh
   \<and> sint (usecount fresh) + int (length [''a'', ''b'']) \<le> 2147483647
   \<and> acquired (fst two_calls) = [0, 1]
   \<and> map pc (snd two_calls) = [L85, L73]
   \<and> cstr (pidfilename (snd two_calls ! 0)) = ''_yafu_system_.0''
   \<and> cstr (pidfilename (snd two_calls ! 1)) = ''_yafu_system_.1''
   \<and> sint (tmp (snd two_calls ! 0)) < sint (tmp (snd two_calls ! 1))"
proof -
  have b: "sint (usecount fresh) + int (length [''a'', ''b'']) \<le> 2147483647"
    by (simp add: fresh_def)
  have p: "exec platform_ok [0, 0, 0, 0, 0, 0, 0, 0, 0, 0, 0, 0, 0, 0, 1, 1, 1, 1, 1, 1, 1]
             (fresh, map entry [''a'', ''b'']) = (fst two_calls, snd two_calls)"
    by (simp add: two_calls_def)
  note T = handoff_identifiers_follow_lock_order [OF boot_fresh p b]
  have n0: "named (pc (snd two_calls ! (acquired (fst two_calls) ! 0)))"
    by (simp add: two_calls_acquired two_calls_pc0 named_def in_init_def)
  have n1: "named (pc (snd two_calls ! (acquired (fst two_calls) ! 1)))"
    by (simp add: two_calls_acquired two_calls_pc1 named_def in_init_def)
  have l: "0 < length (acquired (fst two_calls))" "1 < length (acquired (fst two_calls))"
    by (simp_all add: two_calls_acquired)
  from T l n0 have "cstr (pidfilename (snd two_calls ! (acquired (fst two_calls) ! 0))) =
       ''_yafu_system_.'' @ dec (sint (usecount fresh) + int 0)" by blast
  then have c0: "cstr (pidfilename (snd two_calls ! 0)) = ''_yafu_system_.0''"
    by (simp add: two_calls_acquired fresh_def dec_def dec_nat.simps)
  from T l n1 have "cstr (pidfilename (snd two_calls ! (acquired (fst two_calls) ! 1))) =
       ''_yafu_system_.'' @ dec (sint (usecount fresh) + int 1)" by blast
  then have c1: "cstr (pidfilename (snd two_calls ! 1)) = ''_yafu_system_.1''"
    by (simp add: two_calls_acquired fresh_def dec_def dec_nat.simps)
  from T l n0 have "sint (tmp (snd two_calls ! (acquired (fst two_calls) ! 0))) = sint (usecount fresh) + int 0"
    unfolding taken_def by blast
  moreover from T l n1 have "sint (tmp (snd two_calls ! (acquired (fst two_calls) ! 1))) = sint (usecount fresh) + int 1"
    unfolding taken_def by blast
  ultimately have lt: "sint (tmp (snd two_calls ! 0)) < sint (tmp (snd two_calls ! 1))"
    by (simp add: two_calls_acquired)
  show ?thesis
    using boot_fresh b two_calls_acquired two_calls_pcs c0 c1 lt by blast
qed

text \<open>
  C5. The call leaves the critical section right after \<^verbatim>\<open>system\<close> returns: between entering
  and leaving it only prints the command and calls \<^verbatim>\<open>system\<close>. It arrives at the
  \<^verbatim>\<open>fopen\<close> of line 85 with the critical section free, and, when the file is there, at the
  wait of line 100 with the critical section still free. And when any number of calls run
  with their statements in any order, the thread that owns the critical section is at lines
  72-82 and a thread at lines 72-82 owns it: no thread owns it while it opens, reads or
  removes its file or waits for its task. Run alone, the call is at line 85 after 14
  statements and at line 100 after 23 (12 and 21 when the critical section was there
  already).
\<close>

theorem lock_released_before_handoff_and_wait:
  assumes "ready t w" and "boot w0" and "exec e sched (w0, map entry cmds) = (wc, frs)"
  shows "(\<exists>fr. safe_system e t c w = run e t (submitted e t c (after_init t w), fr) \<and> pc fr = L85)
         \<and> owner (submitted e t c (after_init t w)) = None
         \<and> new_events w (submitted e t c (after_init t w)) =
             init_events w @
             [EnterCriticalSection,
              Fprintf_stderr (''*SYSTEM* >>'' @ augmented c (usecount w) @ ''<<'' @ [CHR 0x0A]),
              System (augmented c (usecount w)), LeaveCriticalSection]
         \<and> (\<forall>content. handoff e c w = Some content \<longrightarrow>
               (\<exists>fr. safe_system e t c w = run e t (recovered e t c w content, fr) \<and> pc fr = L100)
               \<and> owner (recovered e t c w content) = None
               \<and> new_events w (recovered e t c w content) =
                   new_events w (submitted e t c (after_init t w)) @
                   [Fopen (pidfile_name (usecount w)) ''r'', Fread 1 80, Fclose,
                    Remove (pidfile_name (usecount w)),
                    Cygwin_internal_pid_to_winpid (parsed_pid e c w content),
                    OpenProcess [SYNCHRONIZE] False (pid_to_winpid e (parsed_pid e c w content))])
         \<and> (\<forall>j<length frs. in_cs (pc (frs ! j)) \<longleftrightarrow> owner wc = Some j)
         \<and> (\<forall>j<length frs.
               pc (frs ! j) \<in> {L85, L86, L88, L89, L90, L91, L96, L97, L98, L100, L101, L103, Returned} \<longrightarrow>
               owner wc \<noteq> Some j)
         \<and> (\<forall>u. owner wc = Some u \<longrightarrow> u < length frs)
         \<and> (\<exists>fr. iter e t (if initializing w = 0 then 14 else 12) (w, entry c) =
                     (submitted e t c (after_init t w), fr) \<and> pc fr = L85)
         \<and> (\<forall>content. handoff e c w = Some content \<longrightarrow>
               (\<exists>fr. iter e t (if initializing w = 0 then 23 else 21) (w, entry c) =
                       (recovered e t c w content, fr) \<and> pc fr = L100))"
proof -
  have a: "\<exists>fr. safe_system e t c w = run e t (submitted e t c (after_init t w), fr) \<and> pc fr = L85"
    using run_to_L85 [OF assms(1), of e c] by blast
  have b: "(\<exists>fr. safe_system e t c w = run e t (recovered e t c w content, fr) \<and> pc fr = L100)"
    if "handoff e c w = Some content" for content
    using run_to_L100 [OF assms(1) that] by blast
  have s: "(\<exists>fr. safe_system e t c w = run e t (submitted e t c (after_init t w), fr) \<and> pc fr = L85)
         \<and> owner (submitted e t c (after_init t w)) = None
         \<and> new_events w (submitted e t c (after_init t w)) =
             init_events w @
             [EnterCriticalSection,
              Fprintf_stderr (''*SYSTEM* >>'' @ augmented c (usecount w) @ ''<<'' @ [CHR 0x0A]),
              System (augmented c (usecount w)), LeaveCriticalSection]
         \<and> (\<forall>content. handoff e c w = Some content \<longrightarrow>
               (\<exists>fr. safe_system e t c w = run e t (recovered e t c w content, fr) \<and> pc fr = L100)
               \<and> owner (recovered e t c w content) = None
               \<and> new_events w (recovered e t c w content) =
                   new_events w (submitted e t c (after_init t w)) @
                   [Fopen (pidfile_name (usecount w)) ''r'', Fread 1 80, Fclose,
                    Remove (pidfile_name (usecount w)),
                    Cygwin_internal_pid_to_winpid (parsed_pid e c w content),
                    OpenProcess [SYNCHRONIZE] False (pid_to_winpid e (parsed_pid e c w content))])"
    using a b by (simp add: new_events_submitted new_events_recovered)
  have "inv_all e (usecount w0) (exec e sched (w0, map entry cmds))"
    by (rule inv_all_exec [OF inv_all_boot [OF assms(2)]])
  then have "inv_all e (usecount w0) (wc, frs)" by (simp add: assms(3))
  then have l: "inv_lock (wc, frs)"
    unfolding inv_all_iff by blast
  have c: "\<forall>j<length frs. in_cs (pc (frs ! j)) \<longleftrightarrow> owner wc = Some j"
    using inv_lockD [OF l] by blast
  have d: "\<forall>j<length frs.
             pc (frs ! j) \<in> {L85, L86, L88, L89, L90, L91, L96, L97, L98, L100, L101, L103, Returned} \<longrightarrow>
             owner wc \<noteq> Some j"
  proof (intro allI impI)
    fix j
    assume j: "j < length frs"
      and p: "pc (frs ! j) \<in> {L85, L86, L88, L89, L90, L91, L96, L97, L98, L100, L101, L103, Returned}"
    from p have "\<not> in_cs (pc (frs ! j))" by (auto simp: in_cs_def)
    with c j show "owner wc \<noteq> Some j" by blast
  qed
  have f: "\<forall>u. owner wc = Some u \<longrightarrow> u < length frs"
    using inv_lockD(2) [OF l] by blast
  have g: "\<exists>fr. iter e t (if initializing w = 0 then 14 else 12) (w, entry c) =
                     (submitted e t c (after_init t w), fr) \<and> pc fr = L85"
    using iter_to_L85 [OF assms(1), of e c] by blast
  have h: "\<forall>content. handoff e c w = Some content \<longrightarrow>
               (\<exists>fr. iter e t (if initializing w = 0 then 23 else 21) (w, entry c) =
                       (recovered e t c w content, fr) \<and> pc fr = L100)"
  proof (intro allI impI)
    fix content assume "handoff e c w = Some content"
    from iter_to_L100 [OF assms(1) this]
    show "\<exists>fr. iter e t (if initializing w = 0 then 23 else 21) (w, entry c) =
                       (recovered e t c w content, fr) \<and> pc fr = L100"
      unfolding steps_to_wait_def by blast
  qed
  show ?thesis using s c d f g h by blast
qed

theorem lock_released_before_handoff_and_wait_witness:
  "ready 0 fresh \<and> boot fresh
   \<and> owner (submitted platform_ok 0 ''ls'' (after_init 0 fresh)) = None
   \<and> new_events fresh (submitted platform_ok 0 ''ls'' (after_init 0 fresh)) =
       [InitializeCriticalSection, EnterCriticalSection,
        Fprintf_stderr (''*SYSTEM* >>ls & echo -n $! > _yafu_system_.0<<'' @ [CHR 0x0A]),
        System ''ls & echo -n $! > _yafu_system_.0'', LeaveCriticalSection]
   \<and> owner (recovered platform_ok 0 ''ls'' fresh ''1234'') = None
   \<and> map pc (snd two_calls) = [L85, L73]
   \<and> owner (fst two_calls) = Some 1"
proof -
  have a: "augmented ''ls'' (usecount fresh) = ''ls & echo -n $! > _yafu_system_.0''"
    by (simp add: augmented_def fresh_def pidfile_name_0 cstr_def NUL_def)
  have i: "init_events fresh = [InitializeCriticalSection]"
    by (simp add: init_events_def fresh_def)
  have p: "exec platform_ok [0, 0, 0, 0, 0, 0, 0, 0, 0, 0, 0, 0, 0, 0, 1, 1, 1, 1, 1, 1, 1]
             (fresh, map entry [''a'', ''b'']) = (fst two_calls, snd two_calls)"
    by (simp add: two_calls_def)
  note T = lock_released_before_handoff_and_wait
             [of 0 fresh fresh platform_ok _ "[''a'', ''b'']" "fst two_calls" "snd two_calls" "''ls''",
              OF ready_fresh boot_fresh p]
  have l: "Suc 0 < length (snd two_calls)"
    using arg_cong [OF two_calls_pcs, of length] by simp
  have "in_cs (pc (snd two_calls ! Suc 0))"
    by (simp add: two_calls_pc1 in_cs_def)
  with T l have o: "owner (fst two_calls) = Some (Suc 0)" by blast
  from T have
    "owner (submitted platform_ok 0 ''ls'' (after_init 0 fresh)) = None
     \<and> new_events fresh (submitted platform_ok 0 ''ls'' (after_init 0 fresh)) =
         init_events fresh @
         [EnterCriticalSection,
          Fprintf_stderr (''*SYSTEM* >>'' @ augmented ''ls'' (usecount fresh) @ ''<<'' @ [CHR 0x0A]),
          System (augmented ''ls'' (usecount fresh)), LeaveCriticalSection]"
    by blast
  then have s: "owner (submitted platform_ok 0 ''ls'' (after_init 0 fresh)) = None
     \<and> new_events fresh (submitted platform_ok 0 ''ls'' (after_init 0 fresh)) =
       [InitializeCriticalSection, EnterCriticalSection,
        Fprintf_stderr (''*SYSTEM* >>ls & echo -n $! > _yafu_system_.0<<'' @ [CHR 0x0A]),
        System ''ls & echo -n $! > _yafu_system_.0'', LeaveCriticalSection]"
    unfolding a i by simp
  from T handoff_ok [of "''ls''"] have r: "owner (recovered platform_ok 0 ''ls'' fresh ''1234'') = None"
    by blast
  show ?thesis
    using ready_fresh boot_fresh s r two_calls_pcs o by simp
qed

lemma handoff_no_file_any: "handoff platform_no_file c w = fs w (pidfile_name (usecount w))"
  by (simp add: handoff_def platform_no_file_def platform_ok_def)

lemma bailed_fields:
  "usecount (bailed e t c w) = usecount w + 1"
  "initializing (bailed e t c w) = initializing (after_init t w)"
  "cs_inits (bailed e t c w) = cs_inits (after_init t w)"
  "fs (bailed e t c w) = snd (system_fn e (augmented c (usecount w)) (fs w))"
  by (simp_all add: bailed_def submitted_def log_def)

lemma idle_ready: "idle w \<Longrightarrow> ready t w"
  by (auto simp: idle_def ready_def after_init_def log_def)

lemma idle_fresh: "idle fresh"
  by (simp add: idle_def fresh_def)

lemma after_call_idle:
  assumes "idle w"
  shows "after_call platform_no_file t c w = bailed platform_no_file t c w"
    and "idle (bailed platform_no_file t c w)"
    and "call platform_no_file t c w = Returns (- 1) (bailed platform_no_file t c w)"
proof -
  have h: "handoff platform_no_file c w = None"
    using assms by (simp add: handoff_no_file_any idle_def)
  show c: "call platform_no_file t c w = Returns (- 1) (bailed platform_no_file t c w)"
    by (rule path_bail [OF idle_ready [OF assms] h])
  then show "after_call platform_no_file t c w = bailed platform_no_file t c w"
    by (simp add: after_call_def)
  show "idle (bailed platform_no_file t c w)"
    using assms
    by (auto simp: idle_def bailed_fields after_init_def log_def bailed_def submitted_def
          platform_no_file_def platform_ok_def)
qed

text \<open>After \<open>n\<close> calls in a row the counter is \<open>n\<close>, modulo \<open>2 ^ 32\<close>.\<close>

lemma calls_in_a_row:
  "idle ((after_call platform_no_file t c ^^ n) fresh)
   \<and> usecount ((after_call platform_no_file t c ^^ n) fresh) = of_nat n"
proof (induction n)
  case 0
  show ?case by (simp add: idle_fresh) (simp add: fresh_def)
next
  case (Suc n)
  then show ?case
    by (simp add: after_call_idle bailed_fields)
qed

lemma near_overflow_idle: "idle near_overflow"
  unfolding near_overflow_def
  using calls_in_a_row [where t = 0 and c = "''ls''" and n = 2147483647] by blast

lemma usecount_near_overflow: "usecount near_overflow = 2147483647"
proof -
  have "usecount near_overflow = of_nat 2147483647"
    unfolding near_overflow_def
    using calls_in_a_row [where t = 0 and c = "''ls''" and n = 2147483647] by blast
  then show ?thesis by simp
qed

text \<open>
  As the claim states it, for every sequence of calls, the identifiers are not always
  increasing: after 2147483647 calls the counter is at INT\_MAX, and the next two calls
  name their files with 2147483647 and then with -2147483648.
\<close>

theorem identifiers_wrap_counterexample:
  "call platform_no_file 0 ''ls'' near_overflow =
     Returns (- 1) (bailed platform_no_file 0 ''ls'' near_overflow)
   \<and> last (new_events near_overflow (bailed platform_no_file 0 ''ls'' near_overflow)) =
       Fopen ''_yafu_system_.2147483647'' ''r''
   \<and> call platform_no_file 0 ''ls'' (bailed platform_no_file 0 ''ls'' near_overflow) =
       Returns (- 1) (bailed platform_no_file 0 ''ls'' (bailed platform_no_file 0 ''ls'' near_overflow))
   \<and> last (new_events (bailed platform_no_file 0 ''ls'' near_overflow)
              (bailed platform_no_file 0 ''ls'' (bailed platform_no_file 0 ''ls'' near_overflow))) =
       Fopen ''_yafu_system_.-2147483648'' ''r''
   \<and> sint (usecount (bailed platform_no_file 0 ''ls'' near_overflow)) < sint (usecount near_overflow)"
proof -
  let ?w1 = "bailed platform_no_file 0 ''ls'' near_overflow"
  note u0 = usecount_near_overflow
  have u1: "usecount ?w1 = 2147483648" by (simp add: bailed_fields u0)
  have n0: "pidfile_name 2147483647 = ''_yafu_system_.2147483647''"
    by (simp add: pidfile_name_def dec_def dec_nat.simps)
  have n1: "pidfile_name 2147483648 = ''_yafu_system_.-2147483648''"
    by (simp add: pidfile_name_def dec_def dec_nat.simps)
  note a = after_call_idle(3) [OF near_overflow_idle, where t = 0 and c = "''ls''"]
  note b = after_call_idle(3) [OF after_call_idle(2) [OF near_overflow_idle, where t = 0 and c = "''ls''"],
             where t = 0 and c = "''ls''"]
  have c: "last (new_events near_overflow ?w1) = Fopen ''_yafu_system_.2147483647'' ''r''"
    by (simp add: new_events_bailed u0 n0)
  have d: "last (new_events ?w1 (bailed platform_no_file 0 ''ls'' ?w1)) = Fopen ''_yafu_system_.-2147483648'' ''r''"
    by (simp add: new_events_bailed u1 n1)
  have e: "sint (usecount ?w1) < sint (usecount near_overflow)"
    by (simp add: u0 u1)
  show ?thesis using a b c d e by blast
qed

section \<open>Threads: what each of them has done\<close>

lemma dw_snoc:
  "dropWhile P (xs @ [x]) =
     (if dropWhile P xs = [] then (if P x then [] else [x]) else dropWhile P xs @ [x])"
  by (auto simp: dropWhile_append dropWhile_eq_Nil_conv)

lemma frame_names:
  assumes "frame_ok e fr"
  shows "named (pc fr) \<Longrightarrow> cstr (pidfilename fr) = pidfile_name (tmp fr)"
    and "pc fr = L79 \<or> pc fr = L81 \<Longrightarrow>
           cstr (buf fr) = cstr (cmd fr) @ '' & echo -n $! > '' @ cstr (pidfilename fr)"
proof -
  show n: "cstr (pidfilename fr) = pidfile_name (tmp fr)" if "named (pc fr)"
    using assms that by (simp add: frame_ok_def cstr_name_buf)
  assume p: "pc fr = L79 \<or> pc fr = L81"
  then have "named (pc fr)" by (auto simp: named_def in_init_def)
  from n [OF this] have "cstr (pidfilename fr) = pidfile_name (tmp fr)" .
  moreover from assms p have "buf fr = cmd_buf e (cmd fr) (tmp fr)"
    unfolding frame_ok_def by blast
  ultimately show "cstr (buf fr) = cstr (cmd fr) @ '' & echo -n $! > '' @ cstr (pidfilename fr)"
    by (simp add: cstr_cmd_buf augmented_def)
qed

lemma events_of_other:
  assumes "stmt e t (w, fr) = (w', fr')" and "j \<noteq> t"
  shows "events_of j w' = events_of j w"
proof (cases "pc fr")
  case L100
  with assms show ?thesis
    by (cases "hdl fr") (auto simp: step_simps events_of_def split: if_splits)
qed (use assms in \<open>auto simp: step_simps events_of_def split: if_splits option.splits\<close>)

lemma trace_threads:
  assumes "stmt e t (w, fr) = (w', fr')" and "x \<in> set (trace w')"
  shows "x \<in> set (trace w) \<or> fst x = t"
proof (cases "pc fr")
  case L100
  with assms show ?thesis
    by (cases "hdl fr") (auto simp: step_simps split: if_splits)
qed (use assms in \<open>auto simp: step_simps split: if_splits option.splits\<close>)

lemmas hist_simps = hist_def progress_def script_def events_of_def dw_snoc is_init_event_def

lemma stmt_L73:
  assumes "pc fr = L73" and "frame_ok e fr"
  shows "stmt e t (w, fr) =
           (w, fr\<lparr>buf := cstr (cmd fr) @ NUL # drop (strlen (cmd fr) + 1) (alloca e (strlen (cmd fr) + 128)),
                  ptr := strlen (cmd fr), pc := L75\<rparr>)"
proof -
  from assms have b: "buf fr = alloca e (strlen (cmd fr) + 128)"
    unfolding frame_ok_def by blast
  show ?thesis using assms(1) by (simp add: step_simps b poke_simps)
qed

lemma stmt_L75:
  assumes "pc fr = L75" and "frame_ok e fr"
  shows "stmt e t (w, fr) = (w, fr\<lparr>buf := cmd_buf e (cmd fr) (tmp fr), pc := L79\<rparr>)"
proof -
  from assms(1) have n: "named (pc fr)" by (simp add: named_def in_init_def)
  from assms have b: "buf fr = cstr (cmd fr) @ NUL # drop (strlen (cmd fr) + 1) (alloca e (strlen (cmd fr) + 128))"
    and p: "ptr fr = strlen (cmd fr)"
    unfolding frame_ok_def by blast+
  from assms(2) n have f: "pidfilename fr = name_buf e (tmp fr)"
    unfolding frame_ok_def by blast
  show ?thesis using assms(1) by (simp add: step_simps b p f cstr_name_buf poke_simps)
qed

lemma stmt_L88:
  assumes "pc fr = L88" and "frame_ok e fr"
  shows "stmt e t (w, fr) =
           (w\<lparr>trace := trace w @ [(t, Fread 1 80)]\<rparr>,
            fr\<lparr>buf := read_buf e (cmd fr) (tmp fr) (the (fp fr)), pc := L89\<rparr>)"
proof -
  from assms obtain y where y: "fp fr = Some y" and b: "buf fr = cmd_buf e (cmd fr) (tmp fr)"
    unfolding frame_ok_def by blast
  have "length (take 80 y) \<le> length (buf fr)"
    by (simp add: b length_cmd_buf)
  then show ?thesis using assms(1) y b by (simp add: step_simps read_buf_def)
qed

lemma stmt_L98:
  assumes "pc fr = L98" and "frame_data e fr"
  shows "stmt e t (w, fr) = (w, fr\<lparr>pc := L100\<rparr>)"
proof -
  from assms have "hdl fr = opened e (pid fr)" by (simp add: frame_data_def parsed_def)
  then have "hdl fr \<noteq> INVALID_HANDLE_VALUE" by (simp add: opened_def split: option.splits)
  then show ?thesis using assms(1) by (simp add: step_simps)
qed

lemma hist_step:
  assumes st: "stmt e t (w, fr) = (w', fr')" and fo: "frame_ok e fr" and fd: "frame_data e fr"
    and h: "hist t w fr"
  shows "hist t w' fr'"
proof (cases "pc fr")
  case L54
  with st have "trace w' = trace w" "pc fr' = L55 \<or> pc fr' = L58"
    by (auto simp: stmt_L54 split: if_splits)
  with h L54 show ?thesis by (auto simp: hist_simps)
next
  case L55
  with st have "trace w' = trace w @ [(t, InitializeCriticalSection)]" "pc fr' = L56"
    by (auto simp: stmt_L55)
  with h L55 show ?thesis by (simp add: hist_simps)
next
  case L56
  with st have "trace w' = trace w" "pc fr' = L56_store"
    by (auto simp: stmt_L56)
  with h L56 show ?thesis by (simp add: hist_simps)
next
  case L56_store
  with st have "trace w' = trace w" "pc fr' = L63"
    by (auto simp: stmt_L56_store)
  with h L56_store show ?thesis by (simp add: hist_simps)
next
  case L58
  with st have "trace w' = trace w" "pc fr' = L59 \<or> pc fr' = L63"
    by (auto simp: stmt_L58 split: if_splits)
  with h L58 show ?thesis by (auto simp: hist_simps)
next
  case L59
  with st have "trace w' = trace w @ [(t, Usleep 10000)]" "pc fr' = L58"
    by (auto simp: stmt_L59)
  with h L59 show ?thesis by (simp add: hist_simps)
next
  case L63
  with st have "trace w' = trace w" "pc fr' = L66"
    by (auto simp: step_simps)
  with h L63 show ?thesis by (simp add: hist_simps)
next
  case L66
  with st have "trace w' = trace w" "pc fr' = L69"
    by (auto simp: step_simps)
  with h L66 show ?thesis by (simp add: hist_simps)
next
  case L69
  with st have "(trace w' = trace w \<and> (pc fr' = L69 \<or> pc fr' = Undefined_behaviour))
                \<or> (trace w' = trace w @ [(t, EnterCriticalSection)] \<and> pc fr' = L72)"
    by (auto simp: step_simps split: if_splits)
  with h L69 show ?thesis by (auto simp: hist_simps)
next
  case L72
  with st have "trace w' = trace w" "pc fr' = L72_store"
    by (auto simp: stmt_L72)
  with h L72 show ?thesis by (simp add: hist_simps)
next
  case L72_store
  with st fo have "trace w' = trace w" "pc fr' = L73"
    by (auto simp: stmt_L72_store)
  with h L72_store show ?thesis by (simp add: hist_simps)
next
  case L73
  with st fo have "trace w' = trace w" "pc fr' = L75"
    by (auto simp: stmt_L73)
  with h L73 show ?thesis by (simp add: hist_simps)
next
  case L75
  with st fo have "trace w' = trace w" "pc fr' = L79"
    by (auto simp: stmt_L75)
  with h L75 show ?thesis by (simp add: hist_simps)
next
  case L79
  with st have "trace w' = trace w @ [(t, Fprintf_stderr (''*SYSTEM* >>'' @ cstr (buf fr) @ ''<<'' @ [CHR 0x0A]))]"
    "pc fr' = L81" "cmd fr' = cmd fr" "pidfilename fr' = pidfilename fr"
    by (auto simp: step_simps)
  with h L79 frame_names(2) [OF fo] show ?thesis by (simp add: hist_simps)
next
  case L81
  with st have "trace w' = trace w @ [(t, System (cstr (buf fr)))]"
    "pc fr' = L82" "cmd fr' = cmd fr" "pidfilename fr' = pidfilename fr"
    by (auto simp: step_simps)
  with h L81 frame_names(2) [OF fo] show ?thesis by (simp add: hist_simps)
next
  case L82
  with st have "trace w' = trace w @ [(t, LeaveCriticalSection)]"
    "pc fr' = L85" "cmd fr' = cmd fr" "pidfilename fr' = pidfilename fr"
    by (auto simp: stmt_L82)
  with h L82 show ?thesis by (simp add: hist_simps)
next
  case L85
  with st have "trace w' = trace w @ [(t, Fopen (cstr (pidfilename fr)) ''r'')]"
    "pc fr' = L86" "cmd fr' = cmd fr" "pidfilename fr' = pidfilename fr"
    by (auto simp: step_simps)
  with h L85 show ?thesis by (simp add: hist_simps)
next
  case L86
  with st have "trace w' = trace w" "cmd fr' = cmd fr" "pidfilename fr' = pidfilename fr"
    "(pc fr' = Returned \<and> fp fr' = None) \<or> pc fr' = L88"
    by (auto simp: step_simps split: if_splits)
  with h L86 show ?thesis by (auto simp: hist_simps)
next
  case L88
  with st fo have "trace w' = trace w @ [(t, Fread 1 80)]"
    "pc fr' = L89" "cmd fr' = cmd fr" "pidfilename fr' = pidfilename fr"
    by (auto simp: stmt_L88)
  with h L88 show ?thesis by (simp add: hist_simps)
next
  case L89
  with st have "trace w' = trace w @ [(t, Fclose)]"
    "pc fr' = L90" "cmd fr' = cmd fr" "pidfilename fr' = pidfilename fr"
    by (auto simp: step_simps)
  with h L89 show ?thesis by (simp add: hist_simps)
next
  case L90
  with st have "trace w' = trace w @ [(t, Remove (cstr (pidfilename fr)))]"
    "pc fr' = L91" "cmd fr' = cmd fr" "pidfilename fr' = pidfilename fr"
    by (auto simp: step_simps)
  with h L90 show ?thesis by (simp add: hist_simps)
next
  case L91
  with st have "trace w' = trace w"
    "pc fr' = L96" "cmd fr' = cmd fr" "pidfilename fr' = pidfilename fr"
    by (auto simp: step_simps)
  with h L91 show ?thesis by (simp add: hist_simps)
next
  case L96
  with st have "trace w' = trace w @ [(t, Cygwin_internal_pid_to_winpid (pid fr))]"
    "pc fr' = L97" "cmd fr' = cmd fr" "pidfilename fr' = pidfilename fr" "pid fr' = pid fr"
    by (auto simp: step_simps)
  with h L96 show ?thesis by (simp add: hist_simps)
next
  case L97
  with st have "trace w' = trace w @ [(t, OpenProcess [SYNCHRONIZE] False (winpid fr))]"
    "pc fr' = L98" "cmd fr' = cmd fr" "pidfilename fr' = pidfilename fr" "pid fr' = pid fr"
    "winpid fr' = winpid fr"
    by (auto simp: step_simps)
  with h L97 show ?thesis by (simp add: hist_simps)
next
  case L98
  with st fd have "trace w' = trace w"
    "pc fr' = L100" "cmd fr' = cmd fr" "pidfilename fr' = pidfilename fr" "pid fr' = pid fr"
    "winpid fr' = winpid fr"
    by (auto simp: stmt_L98)
  with h L98 show ?thesis by (simp add: hist_simps)
next
  case L100
  with st have "(w' = w \<and> fr' = fr)
     \<or> (trace w' = trace w @ [(t, WaitForSingleObject (hdl fr) INFINITE)] \<and>
        pc fr' = L101 \<and> cmd fr' = cmd fr \<and> pidfilename fr' = pidfilename fr \<and> pid fr' = pid fr \<and>
        winpid fr' = winpid fr \<and> hdl fr' = hdl fr)"
    by (auto simp: stmt_at_wait log_def split: if_splits)
  with h L100 show ?thesis by (auto simp: hist_simps)
next
  case L101
  with st have "trace w' = trace w @ [(t, CloseHandle (hdl fr))]"
    "pc fr' = L103" "cmd fr' = cmd fr" "pidfilename fr' = pidfilename fr" "pid fr' = pid fr"
    "winpid fr' = winpid fr" "hdl fr' = hdl fr"
    by (auto simp: step_simps)
  with h L101 show ?thesis by (simp add: hist_simps)
next
  case L103
  from fd L103 have "fp fr \<noteq> None" by (simp add: frame_data_def parsed_def)
  with L103 st have "trace w' = trace w"
    "pc fr' = Returned" "fp fr' \<noteq> None" "cmd fr' = cmd fr" "pidfilename fr' = pidfilename fr" "pid fr' = pid fr"
    "winpid fr' = winpid fr" "hdl fr' = hdl fr"
    by (auto simp: step_simps)
  with h L103 show ?thesis by (simp add: hist_simps)
next
  case Returned
  with st have "w' = w" "fr' = fr" by (auto simp: step_simps)
  with h show ?thesis by simp
next
  case Undefined_behaviour
  with st have "w' = w" "fr' = fr" by (auto simp: step_simps)
  with h show ?thesis by simp
qed

lemma late_from:
  assumes "stmt e t (w, fr) = (w', fr')"
    and "pc fr' = L88 \<or> reading (pc fr') \<or> parsed (pc fr') \<or> pc fr' = Returned"
  shows "pc fr = L86 \<or> pc fr = L88 \<or> reading (pc fr) \<or> parsed (pc fr) \<or> pc fr = Returned"
  using assms
  by (cases "pc fr")
     (auto simp: step_simps reading_def parsed_def split: option.splits if_splits HANDLE.splits)

lemma frame_data_early:
  "\<not> (pc fr = L88 \<or> reading (pc fr) \<or> parsed (pc fr) \<or> pc fr = Returned) \<Longrightarrow> frame_data e fr"
  by (auto simp: frame_data_def)

lemma frame_data_step:
  assumes st: "stmt e t (w, fr) = (w', fr')" and fo: "frame_ok e fr" and fd: "frame_data e fr"
  shows "frame_data e fr'"
proof (cases "pc fr' = L88 \<or> reading (pc fr') \<or> parsed (pc fr') \<or> pc fr' = Returned")
  case False
  then show ?thesis by (rule frame_data_early)
next
  case True
  from late_from [OF st True]
  consider "pc fr = L86" | "pc fr = L88" | "pc fr = L89" | "pc fr = L90" | "pc fr = L91"
    | "pc fr = L96" | "pc fr = L97" | "pc fr = L98" | "pc fr = L100" | "pc fr = L101" | "pc fr = L103"
    | "pc fr = Returned"
    by (auto simp: reading_def parsed_def)
  then show ?thesis
  proof cases
    case 1
    with st have "(pc fr' = Returned \<and> fp fr' = None) \<or> (pc fr' = L88 \<and> fp fr' \<noteq> None)"
      by (auto simp: step_simps split: if_splits)
    then show ?thesis by (auto simp: frame_data_def reading_def parsed_def)
  next
    case 2
    with st fo have "fr' = fr\<lparr>buf := read_buf e (cmd fr) (tmp fr) (the (fp fr)), pc := L89\<rparr>"
      by (simp add: stmt_L88)
    moreover from fd 2 have "fp fr \<noteq> None" by (simp add: frame_data_def)
    ultimately show ?thesis by (simp add: frame_data_def reading_def parsed_def)
  next
    case 3
    with st have "fr' = fr\<lparr>pc := L90\<rparr>" by (auto simp: step_simps)
    with fd 3 show ?thesis by (simp add: frame_data_def reading_def parsed_def)
  next
    case 4
    with st have "fr' = fr\<lparr>pc := L91\<rparr>" by (auto simp: step_simps)
    with fd 4 show ?thesis by (simp add: frame_data_def reading_def parsed_def)
  next
    case 5
    with st have "fr' = fr\<lparr>pid := atoi (buf fr), pc := L96\<rparr>" by (auto simp: step_simps)
    with fd 5 show ?thesis by (simp add: frame_data_def reading_def parsed_def)
  next
    case 6
    with st have "fr' = fr\<lparr>winpid := pid_to_winpid e (pid fr), pc := L97\<rparr>" by (auto simp: step_simps)
    with fd 6 show ?thesis by (simp add: frame_data_def reading_def parsed_def)
  next
    case 7
    from 7 fd have wp: "winpid fr = pid_to_winpid e (pid fr)"
      by (simp add: frame_data_def parsed_def)
    from 7 st have "fr' = fr\<lparr>hdl := (case open_process e (winpid fr) of None \<Rightarrow> NULL_HANDLE | Some n \<Rightarrow> Handle n),
                            pc := L98\<rparr>"
      by (auto simp: step_simps)
    with fd 7 wp show ?thesis by (simp add: frame_data_def reading_def parsed_def opened_def)
  next
    case 8
    with st fd have "fr' = fr\<lparr>pc := L100\<rparr>" by (simp add: stmt_L98)
    with fd 8 show ?thesis by (simp add: frame_data_def reading_def parsed_def)
  next
    case 9
    with st have "fr' = fr \<or> fr' = fr\<lparr>pc := L101\<rparr>"
      by (auto simp: stmt_at_wait split: if_splits)
    with fd 9 show ?thesis by (auto simp: frame_data_def reading_def parsed_def)
  next
    case 10
    with st have "fr' = fr\<lparr>pc := L103\<rparr>" by (auto simp: step_simps)
    with fd 10 show ?thesis by (simp add: frame_data_def reading_def parsed_def)
  next
    case 11
    with st have "fr' = fr\<lparr>retval := ret fr, pc := Returned\<rparr>" by (auto simp: step_simps)
    with fd 11 show ?thesis by (simp add: frame_data_def reading_def parsed_def)
  next
    case 12
    with st have "fr' = fr" by (auto simp: step_simps)
    with fd show ?thesis by simp
  qed
qed

lemma inv_hist_step:
  assumes inv: "inv_all e c0 s" and ih: "inv_hist e s"
  shows "inv_hist e (step_thread e s t)"
proof (cases "t < length (snd s)")
  case False
  then show ?thesis using ih by (simp add: step_thread_idle)
next
  case True
  obtain w frs where s: "s = (w, frs)" by (cases s)
  with True have t: "t < length frs" by simp
  from inv s have "inv_all e c0 (w, frs)" by simp
  then have fo: "\<And>j. j < length frs \<Longrightarrow> frame_ok e (frs ! j)"
    unfolding inv_all_iff by blast
  from ih s have fd: "\<And>j. j < length frs \<Longrightarrow> frame_data e (frs ! j)"
    and hi: "\<And>j. j < length frs \<Longrightarrow> hist j w (frs ! j)"
    and tr: "\<And>x. x \<in> set (trace w) \<Longrightarrow> fst x < length frs"
    unfolding inv_hist_def by simp_all
  obtain w' fr' where st: "stmt e t (w, frs ! t) = (w', fr')" by (cases "stmt e t (w, frs ! t)")
  have step: "step_thread e s t = (w', frs[t := fr'])"
    using t st s by (simp add: step_thread_simp)
  have a: "frame_data e fr'" by (rule frame_data_step [OF st fo [OF t] fd [OF t]])
  have b: "hist t w' fr'" by (rule hist_step [OF st fo [OF t] fd [OF t] hi [OF t]])
  have c: "hist j w' (frs ! j)" if "j < length frs" "j \<noteq> t" for j
    using hi [OF that(1)] events_of_other [OF st that(2)] by (simp add: hist_def)
  have d: "fst x < length frs" if "x \<in> set (trace w')" for x
  proof (cases "x \<in> set (trace w)")
    case True
    then show ?thesis by (rule tr)
  next
    case False
    with trace_threads [OF st that] have "fst x = t" by simp
    with t show ?thesis by simp
  qed
  have "frame_data e (frs[t := fr'] ! j) \<and> hist j w' (frs[t := fr'] ! j)" if "j < length frs" for j
    using that a b c [OF that] fd [OF that] by (cases "j = t") simp_all
  then show ?thesis unfolding step inv_hist_def using d by simp
qed

lemma inv_hist_exec:
  "inv_all e c0 s \<Longrightarrow> inv_hist e s \<Longrightarrow> inv_hist e (exec e sched s)"
proof (induction sched arbitrary: s)
  case Nil
  then show ?case by simp
next
  case (Cons t sched)
  have "inv_all e c0 (step_thread e s t)" by (rule inv_all_step [OF Cons.prems(1)])
  moreover have "inv_hist e (step_thread e s t)" by (rule inv_hist_step [OF Cons.prems])
  ultimately show ?case using Cons.IH by simp
qed

lemma inv_hist_boot:
  assumes "boot w"
  shows "inv_hist e (w, map entry cmds)"
proof -
  from assms have b: "trace w = []" by (simp add: boot_def)
  have "frame_data e (entry c)" for c
    by (simp add: frame_data_def reading_def parsed_def entry_def)
  moreover have "hist j w (entry c)" for j c
    by (simp add: hist_def events_of_def b progress_def)
  ultimately show ?thesis by (simp add: inv_hist_def b)
qed





lemma waits_hist:
  assumes "hist j w fr" and "WaitForSingleObject h to \<in> set (events_of j w)"
  shows "h = hdl fr \<and> to = INFINITE \<and> 11 \<le> progress fr"
proof -
  have "events_of j w = takeWhile is_init_event (events_of j w) @ dropWhile is_init_event (events_of j w)"
    by simp
  then have "set (events_of j w) =
               set (takeWhile is_init_event (events_of j w)) \<union> set (dropWhile is_init_event (events_of j w))"
    by (metis set_append)
  moreover have "WaitForSingleObject h to \<notin> set (takeWhile is_init_event (events_of j w))"
    by (auto dest: set_takeWhileD simp: is_init_event_def)
  ultimately have "WaitForSingleObject h to \<in> set (take (progress fr) (script fr))"
    using assms by (simp add: hist_def)
  then show ?thesis
    by (cases "pc fr") (auto simp: progress_def script_def split: if_splits)
qed

lemma progress_waited:
  "11 \<le> progress fr \<Longrightarrow> pc fr = L101 \<or> pc fr = L103 \<or> (pc fr = Returned \<and> fp fr \<noteq> None)"
  by (cases "pc fr") (auto simp: progress_def split: if_splits)

lemma in_events_of: "x \<in> set (trace w) \<Longrightarrow> snd x \<in> set (events_of (fst x) w)"
  by (auto simp: events_of_def)



lemma reach_inv:
  assumes "boot w0" and "exec e sched (w0, map entry cmds) = (wc, frs)"
  shows "inv_all e (usecount w0) (wc, frs)" and "inv_hist e (wc, frs)" and "length frs = length cmds"
proof -
  have a: "inv_all e (usecount w0) (w0, map entry cmds)" by (rule inv_all_boot [OF assms(1)])
  have "inv_all e (usecount w0) (exec e sched (w0, map entry cmds))"
    by (rule inv_all_exec [OF a])
  then show "inv_all e (usecount w0) (wc, frs)" by (simp add: assms(2))
  have "inv_hist e (exec e sched (w0, map entry cmds))"
    by (rule inv_hist_exec [OF a inv_hist_boot [OF assms(1)]])
  then show "inv_hist e (wc, frs)" by (simp add: assms(2))
  have "length (snd (exec e sched (w0, map entry cmds))) = length cmds" by simp
  then show "length frs = length cmds" by (simp add: assms(2))
qed

lemma inv_histD:
  assumes "inv_hist e (w, frs)"
  shows "\<And>j. j < length frs \<Longrightarrow> frame_data e (frs ! j)"
    and "\<And>j. j < length frs \<Longrightarrow> hist j w (frs ! j)"
    and "\<And>x. x \<in> set (trace w) \<Longrightarrow> fst x < length frs"
  using assms unfolding inv_hist_def by simp_all




lemma threads_pids:
  assumes "boot w0" and "exec e sched (w0, map entry cmds) = (wc, frs)"
  shows "\<forall>j<length frs. pc (frs ! j) \<in> {L96, L97, L98, L100, L101, L103} \<longrightarrow>
            (\<exists>content. fp (frs ! j) = Some content \<and>
               pid (frs ! j) = atoi (read_buf e (cmd (frs ! j)) (tmp (frs ! j)) content))
            \<and> (pc (frs ! j) \<in> {L98, L100, L101, L103} \<longrightarrow>
                 hdl (frs ! j) = opened e (pid (frs ! j)))"
    and "\<forall>x \<in> set (trace wc). \<forall>h to. snd x = WaitForSingleObject h to \<longrightarrow>
            fst x < length frs \<and> to = INFINITE \<and> h = opened e (pid (frs ! fst x))
            \<and> (\<exists>content. fp (frs ! fst x) = Some content \<and>
                  pid (frs ! fst x) =
                    atoi (read_buf e (cmd (frs ! fst x)) (tmp (frs ! fst x)) content))"
proof -
  note inv = reach_inv [OF assms]
  note hi = inv_histD(2) [OF inv(2)]
  note fd = inv_histD(1) [OF inv(2)]
  show "\<forall>j<length frs. pc (frs ! j) \<in> {L96, L97, L98, L100, L101, L103} \<longrightarrow>
            (\<exists>content. fp (frs ! j) = Some content \<and>
               pid (frs ! j) = atoi (read_buf e (cmd (frs ! j)) (tmp (frs ! j)) content))
            \<and> (pc (frs ! j) \<in> {L98, L100, L101, L103} \<longrightarrow>
                 hdl (frs ! j) = opened e (pid (frs ! j)))"
  proof (intro allI impI)
    fix j assume j: "j < length frs" and p: "pc (frs ! j) \<in> {L96, L97, L98, L100, L101, L103}"
    from p have pa: "parsed (pc (frs ! j))" by (auto simp: parsed_def)
    with fd [OF j] obtain content where c: "fp (frs ! j) = Some content"
      unfolding frame_data_def by fastforce
    from pa fd [OF j] have "pid (frs ! j) = atoi (read_buf e (cmd (frs ! j)) (tmp (frs ! j)) (the (fp (frs ! j))))"
      unfolding frame_data_def by blast
    with c have a: "\<exists>content. fp (frs ! j) = Some content \<and>
               pid (frs ! j) = atoi (read_buf e (cmd (frs ! j)) (tmp (frs ! j)) content)"
      by simp
    have b: "hdl (frs ! j) = opened e (pid (frs ! j))" if "pc (frs ! j) \<in> {L98, L100, L101, L103}"
    proof -
      from that have "parsed (pc (frs ! j)) \<and> pc (frs ! j) \<noteq> L96 \<and> pc (frs ! j) \<noteq> L97"
        by (auto simp: parsed_def)
      with fd [OF j] show ?thesis unfolding frame_data_def by blast
    qed
    from a b show "(\<exists>content. fp (frs ! j) = Some content \<and>
               pid (frs ! j) = atoi (read_buf e (cmd (frs ! j)) (tmp (frs ! j)) content))
            \<and> (pc (frs ! j) \<in> {L98, L100, L101, L103} \<longrightarrow>
                 hdl (frs ! j) = opened e (pid (frs ! j)))"
      by blast
  qed
  show "\<forall>x \<in> set (trace wc). \<forall>h to. snd x = WaitForSingleObject h to \<longrightarrow>
            fst x < length frs \<and> to = INFINITE \<and> h = opened e (pid (frs ! fst x))
            \<and> (\<exists>content. fp (frs ! fst x) = Some content \<and>
                  pid (frs ! fst x) =
                    atoi (read_buf e (cmd (frs ! fst x)) (tmp (frs ! fst x)) content))"
  proof (intro ballI allI impI)
    fix x h to assume x: "x \<in> set (trace wc)" and ev: "snd x = WaitForSingleObject h to"
    let ?i = "fst x"
    let ?fr = "frs ! ?i"
    have i: "?i < length frs" by (rule inv_histD(3) [OF inv(2) x])
    have "WaitForSingleObject h to \<in> set (events_of ?i wc)"
      using in_events_of [OF x] ev by simp
    from waits_hist [OF hi [OF i] this]
    have w: "h = hdl ?fr" "to = INFINITE" "11 \<le> progress ?fr" by simp_all
    from progress_waited [OF w(3)]
    have late: "parsed (pc ?fr) \<and> pc ?fr \<noteq> L96 \<and> pc ?fr \<noteq> L97 \<or> (pc ?fr = Returned \<and> fp ?fr \<noteq> None)"
      by (auto simp: parsed_def)
    with fd [OF i] have hh: "hdl ?fr = opened e (pid ?fr)"
      unfolding frame_data_def by blast
    from late have late': "parsed (pc ?fr) \<or> (pc ?fr = Returned \<and> fp ?fr \<noteq> None)" by blast
    with fd [OF i] have pp: "pid ?fr = atoi (read_buf e (cmd ?fr) (tmp ?fr) (the (fp ?fr)))"
      unfolding frame_data_def by blast
    from late' fd [OF i] have "fp ?fr \<noteq> None"
      unfolding frame_data_def by blast
    then obtain content where c: "fp ?fr = Some content" by auto
    with pp have "\<exists>content. fp ?fr = Some content \<and>
                  pid ?fr = atoi (read_buf e (cmd ?fr) (tmp ?fr) content)"
      by simp
    with i w hh show "fst x < length frs \<and> to = INFINITE \<and> h = opened e (pid (frs ! fst x))
            \<and> (\<exists>content. fp (frs ! fst x) = Some content \<and>
                  pid (frs ! fst x) =
                    atoi (read_buf e (cmd (frs ! fst x)) (tmp (frs ! fst x)) content))"
      by simp
  qed
qed

lemma stmt_finished: "finished c \<Longrightarrow> stmt e t c = c"
  by (cases c) (auto simp: finished_def step_simps)

lemma exec_single:
  "exec e (replicate n 0) (w, [fr]) = (fst (iter e 0 n (w, fr)), [snd (iter e 0 n (w, fr))])"
proof (induction n arbitrary: w fr)
  case 0
  show ?case by simp
next
  case (Suc n)
  obtain w' fr' where st: "stmt e 0 (w, fr) = (w', fr')" by (cases "stmt e 0 (w, fr)")
  have "exec e (replicate (Suc n) 0) (w, [fr]) = exec e (replicate n 0) (w', [fr'])"
    using st by (simp add: step_thread_simp)
  also have "\<dots> = (fst (iter e 0 n (w', fr')), [snd (iter e 0 n (w', fr'))])" by (rule Suc.IH)
  also have "iter e 0 n (w', fr') = iter e 0 (Suc n) (w, fr)"
  proof (cases "finished (w, fr)")
    case True
    with st have "(w', fr') = (w, fr)" using stmt_finished [OF True, of e 0] by simp
    with True show ?thesis by (simp add: iter_finished)
  next
    case False
    with st show ?thesis by simp
  qed
  finally show ?case .
qed

lemma one_call_state:
  "\<exists>fr. one_call =
          (log 0 (WaitForSingleObject (Handle 7) INFINITE)
             (recovered platform_ok 0 ''123456789 x'' fresh ''1234''), [fr])
        \<and> pc fr = L101 \<and> cmd fr = ''123456789 x'' \<and> tmp fr = 0
        \<and> cstr (pidfilename fr) = ''_yafu_system_.0'' \<and> fp fr = Some ''1234''"
proof -
  let ?c = "''123456789 x''"
  from iter_to_L100 [OF ready_fresh [of 0] handoff_ok [of ?c]] obtain fr where
    fr: "iter platform_ok 0 (steps_to_wait fresh) (fresh, entry ?c) =
           (recovered platform_ok 0 ?c fresh ''1234'', fr)"
      "pc fr = L100" "cmd fr = ?c" "cstr (pidfilename fr) = pidfile_name (usecount fresh)"
      "tmp fr = usecount fresh" "fp fr = Some ''1234''" "hdl fr = opened platform_ok (pid fr)"
    by blast
  have n: "steps_to_wait fresh = 23" by (simp add: steps_to_wait_def fresh_def)
  have h: "hdl fr = Handle 7" using fr(7) by (simp add: opened_def platform_ok_def)
  have nw: "\<not> waits_forever platform_ok (hdl fr)"
    unfolding h by (simp add: waits_forever_def platform_ok_def)
  have nf: "\<not> finished (recovered platform_ok 0 ?c fresh ''1234'', fr)"
    using fr(2) by (simp add: finished_def)
  have "iter platform_ok 0 (23 + 1) (fresh, entry ?c) =
          stmt platform_ok 0 (recovered platform_ok 0 ?c fresh ''1234'', fr)"
    unfolding iter_add using fr(1) nf unfolding n by simp
  also have "\<dots> = (log 0 (WaitForSingleObject (Handle 7) INFINITE)
                      (recovered platform_ok 0 ?c fresh ''1234''), fr\<lparr>pc := L101\<rparr>)"
    using stmt_at_wait [OF fr(2), where e = platform_ok and t = 0] nw h by simp
  finally have "iter platform_ok 0 24 (fresh, entry ?c) =
     (log 0 (WaitForSingleObject (Handle 7) INFINITE)
                      (recovered platform_ok 0 ?c fresh ''1234''), fr\<lparr>pc := L101\<rparr>)"
    by simp
  then have "one_call = (log 0 (WaitForSingleObject (Handle 7) INFINITE)
                      (recovered platform_ok 0 ?c fresh ''1234''), [fr\<lparr>pc := L101\<rparr>])"
    unfolding one_call_def by (simp add: exec_single)
  moreover have "pc (fr\<lparr>pc := L101\<rparr>) = L101" "cmd (fr\<lparr>pc := L101\<rparr>) = ?c" "tmp (fr\<lparr>pc := L101\<rparr>) = 0"
    "cstr (pidfilename (fr\<lparr>pc := L101\<rparr>)) = ''_yafu_system_.0''" "fp (fr\<lparr>pc := L101\<rparr>) = Some ''1234''"
    using fr(3,4,5,6) by (simp_all add: fresh_def pidfile_name_0)
  ultimately show ?thesis by blast
qed

lemma atoi_read_buf:
  assumes "p \<le> 2147483647"
  shows "atoi (read_buf e c n (dec_nat p)) =
           sint (word_of_int (min 9223372036854775807 (int (digits_val 0 (read_buf e c n (dec_nat p)))))
                  :: 32 word)"
proof -
  let ?r = "drop (length (dec_nat p)) (augmented c n) @
            NUL # drop (length (augmented c n) + 1) (alloca e (strlen c + 128))"
  have rb: "read_buf e c n (dec_nat p) = dec_nat p @ ?r"
    using read_buf_dec_nat [OF assms, of e c n] by simp
  have "digits_val 0 (dec_nat p @ ?r) = digits_val p ?r"
    using digits_val_dec_nat [of 0 p ?r] by simp
  then show ?thesis unfolding rb using atoi_dec_nat [of p ?r] by simp
qed

lemma one_call_exec:
  "exec platform_ok (replicate 24 0) (fresh, map entry [''123456789 x'']) = (fst one_call, snd one_call)"
  by (simp add: one_call_def)

lemma one_call_frame:
  "map pc (snd one_call) = [L101]" "fp (snd one_call ! 0) = Some ''1234''"
  "cmd (snd one_call ! 0) = ''123456789 x''" "tmp (snd one_call ! 0) = 0"
  "cstr (pidfilename (snd one_call ! 0)) = ''_yafu_system_.0''"
proof -
  from one_call_state obtain fr where
    fr: "one_call =
          (log 0 (WaitForSingleObject (Handle 7) INFINITE)
             (recovered platform_ok 0 ''123456789 x'' fresh ''1234''), [fr])"
      "pc fr = L101" "cmd fr = ''123456789 x''" "tmp fr = 0"
      "cstr (pidfilename fr) = ''_yafu_system_.0''" "fp fr = Some ''1234''"
    by blast
  have s: "snd one_call = [fr]" by (subst fr(1)) simp
  show "map pc (snd one_call) = [L101]" unfolding s using fr(2) by simp
  show "fp (snd one_call ! 0) = Some ''1234''" unfolding s using fr(6) by simp
  show "cmd (snd one_call ! 0) = ''123456789 x''" unfolding s using fr(3) by simp
  show "tmp (snd one_call ! 0) = 0" unfolding s using fr(4) by simp
  show "cstr (pidfilename (snd one_call ! 0)) = ''_yafu_system_.0''" unfolding s using fr(5) by simp
qed

lemma one_call_pc: "pc (snd one_call ! 0) = L101" "0 < length (snd one_call)"
  using arg_cong [OF one_call_frame(1), of "\<lambda>l. l ! 0"] arg_cong [OF one_call_frame(1), of length]
  by (cases "snd one_call"; simp)+

section \<open>The claims about the handoff file and the pid\<close>



text \<open>
  C9. Line 88 reads at most 80 bytes of the handoff file over the start of the command
  buffer and writes no terminator, so line 91 parses the file's bytes followed by what is
  left of the augmented command. Run alone with the decimal digits of a pid \<open>p\<close> (0 < p,
  p at most INT\_MAX) in the file, the call is at line 100 after 23 statements (21 when the
  critical section was there already) with that buffer, the pid that \<^verbatim>\<open>atoi\<close> made of it
  and the handle opened for that pid; its next statement waits on this handle, for ever
  when the process behind the handle does not exit. The pid is the low 32 bits of the
  digits at the start of the buffer, saturated at LONG\_MAX: it is \<open>p\<close> when the byte of the
  augmented command at the offset of the file's length is not a digit; when it is a digit
  the digits spell a number larger than \<open>p\<close>, and the pid is that number, not \<open>p\<close>,
  whenever it fits an int. And when any number of calls run with their statements in any
  order, the pid of every thread past line 91 is what \<^verbatim>\<open>atoi\<close> made of the file's bytes
  over its own augmented command, and every wait in the trace is on the handle opened for
  the pid of the thread that waits.
\<close>

theorem pid_parsed_from_unterminated_buffer:
  assumes "ready t w" and "0 < p" and "p \<le> 2147483647" and "handoff e c w = Some (dec_nat p)"
    and "boot w0" and "exec e sched (w0, map entry cmds) = (wc, frs)"
  shows "(\<exists>fr. iter e t (if initializing w = 0 then 23 else 21) (w, entry c) =
                (recovered e t c w (dec_nat p), fr) \<and>
              pc fr = L100 \<and> buf fr = read_buf e c (usecount w) (dec_nat p) \<and>
              pid fr = atoi (buf fr) \<and> winpid fr = pid_to_winpid e (pid fr) \<and>
              hdl fr = opened e (pid fr) \<and>
              stmt e t (recovered e t c w (dec_nat p), fr) =
                (if waits_forever e (hdl fr) then (recovered e t c w (dec_nat p), fr)
                 else (log t (WaitForSingleObject (hdl fr) INFINITE) (recovered e t c w (dec_nat p)),
                       fr\<lparr>pc := L101\<rparr>)))
         \<and> (waits_forever e (opened e (atoi (read_buf e c (usecount w) (dec_nat p)))) \<longrightarrow>
               call e t c w = Hangs)
         \<and> (\<not> waits_forever e (opened e (atoi (read_buf e c (usecount w) (dec_nat p)))) \<longrightarrow>
               call e t c w = Returns (status e c w) (completed e t c w (dec_nat p))
               \<and> WaitForSingleObject (opened e (atoi (read_buf e c (usecount w) (dec_nat p)))) INFINITE
                   \<in> set (new_events w (completed e t c w (dec_nat p))))
         \<and> read_buf e c (usecount w) (dec_nat p) =
             dec_nat p @ drop (length (dec_nat p)) (augmented c (usecount w)) @
             NUL # drop (length (augmented c (usecount w)) + 1) (alloca e (strlen c + 128))
         \<and> atoi (read_buf e c (usecount w) (dec_nat p)) =
             sint (word_of_int (min 9223372036854775807
                     (int (digits_val 0 (read_buf e c (usecount w) (dec_nat p))))) :: 32 word)
         \<and> (\<not> isdigit ((augmented c (usecount w) @ [NUL]) ! length (dec_nat p)) \<longrightarrow>
               atoi (read_buf e c (usecount w) (dec_nat p)) = int p)
         \<and> (isdigit ((augmented c (usecount w) @ [NUL]) ! length (dec_nat p)) \<longrightarrow>
               p < digits_val 0 (read_buf e c (usecount w) (dec_nat p))
               \<and> (digits_val 0 (read_buf e c (usecount w) (dec_nat p)) \<le> 2147483647 \<longrightarrow>
                    atoi (read_buf e c (usecount w) (dec_nat p)) =
                      int (digits_val 0 (read_buf e c (usecount w) (dec_nat p)))
                    \<and> atoi (read_buf e c (usecount w) (dec_nat p)) \<noteq> int p))
         \<and> (\<forall>j<length frs. pc (frs ! j) \<in> {L96, L97, L98, L100, L101, L103} \<longrightarrow>
               (\<exists>content. fp (frs ! j) = Some content \<and>
                  pid (frs ! j) = atoi (read_buf e (cmd (frs ! j)) (tmp (frs ! j)) content))
               \<and> (pc (frs ! j) \<in> {L98, L100, L101, L103} \<longrightarrow>
                    hdl (frs ! j) = opened e (pid (frs ! j))))
         \<and> (\<forall>x \<in> set (trace wc). \<forall>h to. snd x = WaitForSingleObject h to \<longrightarrow>
               fst x < length frs \<and> to = INFINITE \<and> h = opened e (pid (frs ! fst x))
               \<and> (\<exists>content. fp (frs ! fst x) = Some content \<and>
                     pid (frs ! fst x) =
                       atoi (read_buf e (cmd (frs ! fst x)) (tmp (frs ! fst x)) content)))"
proof -
  let ?b = "(augmented c (usecount w) @ [NUL]) ! length (dec_nat p)"
  let ?R = "read_buf e c (usecount w) (dec_nat p)"
  let ?v = "digits_val 0 ?R"
  let ?a = "atoi ?R"
  have n: "steps_to_wait w = (if initializing w = 0 then 23 else 21)"
    by (simp add: steps_to_wait_def)
  from iter_to_L100 [OF assms(1,4)] obtain fr where
    fr: "iter e t (steps_to_wait w) (w, entry c) = (recovered e t c w (dec_nat p), fr)"
      "pc fr = L100" "buf fr = ?R" "pid fr = atoi ?R" "winpid fr = pid_to_winpid e (pid fr)"
      "hdl fr = opened e (pid fr)"
    by blast
  have A: "\<exists>fr. iter e t (if initializing w = 0 then 23 else 21) (w, entry c) =
                (recovered e t c w (dec_nat p), fr) \<and>
              pc fr = L100 \<and> buf fr = ?R \<and>
              pid fr = atoi (buf fr) \<and> winpid fr = pid_to_winpid e (pid fr) \<and>
              hdl fr = opened e (pid fr) \<and>
              stmt e t (recovered e t c w (dec_nat p), fr) =
                (if waits_forever e (hdl fr) then (recovered e t c w (dec_nat p), fr)
                 else (log t (WaitForSingleObject (hdl fr) INFINITE) (recovered e t c w (dec_nat p)),
                       fr\<lparr>pc := L101\<rparr>))"
    using fr stmt_at_wait [OF fr(2), of e t "recovered e t c w (dec_nat p)"] unfolding n by auto
  have pp: "parsed_pid e c w (dec_nat p) = ?a" by (simp add: parsed_pid_def)
  have B: "waits_forever e (opened e ?a) \<longrightarrow> call e t c w = Hangs"
    using path_wait_forever [OF assms(1,4)] unfolding pp by blast
  have C: "\<not> waits_forever e (opened e ?a) \<longrightarrow>
               call e t c w = Returns (status e c w) (completed e t c w (dec_nat p))
               \<and> WaitForSingleObject (opened e ?a) INFINITE
                   \<in> set (new_events w (completed e t c w (dec_nat p)))"
    using path_complete [OF assms(1,4)] unfolding pp
    by (simp add: new_events_completed pp)
  note D = read_buf_dec_nat [OF assms(3), of e c "usecount w"]
  note E = atoi_read_buf [OF assms(3), of e c "usecount w"]
  have F: "\<not> isdigit ?b \<longrightarrow> ?a = int p"
    using parsed_pid_dec_nat(1) [OF assms(3), of c w e] by (simp add: parsed_pid_def)
  have d: "isdigit ?b \<longrightarrow> p < ?v"
    using parsed_pid_dec_nat(2) [OF assms(3) _ assms(2), of c w e] by simp
  have f: "?v \<le> 2147483647 \<longrightarrow> ?a = int ?v"
    using parsed_pid_dec_nat(3) [OF assms(3), of e c w] by (simp add: parsed_pid_def)
  from d f have G: "isdigit ?b \<longrightarrow> p < ?v \<and> (?v \<le> 2147483647 \<longrightarrow> ?a = int ?v \<and> ?a \<noteq> int p)"
    by auto
  note T = threads_pids [OF assms(5,6)]
  show ?thesis
    using A B C D E F G T by (simp only: simp_thms)
qed

theorem pid_parsed_from_unterminated_buffer_witness:
  "ready 0 fresh \<and> boot fresh
   \<and> handoff platform_ok ''123456789 x'' fresh = Some (dec_nat 1234)
   \<and> isdigit ((augmented ''123456789 x'' (usecount fresh) @ [NUL]) ! length (dec_nat 1234))
   \<and> atoi (read_buf platform_ok ''123456789 x'' (usecount fresh) (dec_nat 1234)) = 123456789
   \<and> \<not> isdigit ((augmented ''ls'' (usecount fresh) @ [NUL]) ! length (dec_nat 1234))
   \<and> atoi (read_buf platform_ok ''ls'' (usecount fresh) (dec_nat 1234)) = 1234
   \<and> map pc (snd one_call) = [L101]
   \<and> pid (snd one_call ! 0) = 123456789"
proof -
  let ?R = "read_buf platform_ok ''123456789 x'' (usecount fresh) (dec_nat 1234)"
  have h: "handoff platform_ok c fresh = Some (dec_nat 1234)" for c
    using handoff_ok [of c] by (simp add: dec_nat_1234)
  have p1: "0 < (1234 :: nat)" and p2: "(1234 :: nat) \<le> 2147483647" by simp_all
  have d1: "isdigit ((augmented ''123456789 x'' (usecount fresh) @ [NUL]) ! length (dec_nat 1234))"
    by (simp add: usecount_fresh augmented_digits dec_nat_1234 isdigit_def)
  have d2: "\<not> isdigit ((augmented ''ls'' (usecount fresh) @ [NUL]) ! length (dec_nat 1234))"
    by (simp add: usecount_fresh augmented_ls dec_nat_1234 isdigit_def)
  have v: "digits_val 0 ?R = 123456789"
    by (simp add: usecount_fresh dec_nat_1234 digits_digits)
  have v': "digits_val 0 ?R \<le> 2147483647"
    unfolding v by simp
  note T1 = pid_parsed_from_unterminated_buffer [OF ready_fresh p1 p2 h boot_fresh one_call_exec,
                     where t = 0 and c = "''123456789 x''"]
  note T2 = pid_parsed_from_unterminated_buffer [OF ready_fresh p1 p2 h boot_fresh one_call_exec,
                     where t = 0 and c = "''ls''"]
  from T1 d1 v' have "atoi ?R = int (digits_val 0 ?R)" by blast
  then have a1: "atoi ?R = 123456789" unfolding v by simp
  from T2 d2 have "atoi (read_buf platform_ok ''ls'' (usecount fresh) (dec_nat 1234)) = int 1234"
    by blast
  then have a2: "atoi (read_buf platform_ok ''ls'' (usecount fresh) (dec_nat 1234)) = 1234" by simp
  have p: "pc (snd one_call ! 0) \<in> {L96, L97, L98, L100, L101, L103}"
    by (simp add: one_call_pc)
  from T1 one_call_pc(2) p obtain content where
    c: "fp (snd one_call ! 0) = Some content"
      "pid (snd one_call ! 0) =
         atoi (read_buf platform_ok (cmd (snd one_call ! 0)) (tmp (snd one_call ! 0)) content)"
    by blast
  from c(1) have "content = dec_nat 1234" by (simp add: one_call_frame(2) dec_nat_1234)
  with c(2) have "pid (snd one_call ! 0) = atoi ?R"
    by (simp add: one_call_frame(3,4) usecount_fresh)
  then have a3: "pid (snd one_call ! 0) = 123456789" unfolding a1 .
  show ?thesis
    using ready_fresh boot_fresh h d1 a1 d2 a2 one_call_frame(1) a3 by simp
qed

text \<open>
  The equivalence does not hold as the claim states it: with pid 1234 in the file and the
  command \<^verbatim>\<open>cat 3736009938\<close>, the byte at offset 4 of the augmented command is the digit 3,
  the buffer reads 12343736009938, and its low 32 bits are 1234 again.
\<close>

theorem pid_parsed_iff_nondigit_counterexample:
  "handoff platform_ok ''cat 3736009938'' fresh = Some (dec_nat 1234)
   \<and> isdigit ((augmented ''cat 3736009938'' (usecount fresh) @ [NUL]) ! length (dec_nat 1234))
   \<and> parsed_pid platform_ok ''cat 3736009938'' fresh (dec_nat 1234) = 1234
   \<and> \<not> (parsed_pid platform_ok ''cat 3736009938'' fresh (dec_nat 1234) = 1234 \<longleftrightarrow>
          \<not> isdigit ((augmented ''cat 3736009938'' (usecount fresh) @ [NUL]) ! length (dec_nat 1234)))"
proof -
  have h: "handoff platform_ok ''cat 3736009938'' fresh = Some (dec_nat 1234)"
    using handoff_ok [of "''cat 3736009938''"] by (simp add: dec_nat_1234)
  have d: "isdigit ((augmented ''cat 3736009938'' (usecount fresh) @ [NUL]) ! length (dec_nat 1234))"
    by (simp add: usecount_fresh augmented_cat dec_nat_1234 isdigit_def)
  have p: "parsed_pid platform_ok ''cat 3736009938'' fresh (dec_nat 1234) = 1234"
    by (simp add: dec_nat_1234 parsed_cat)
  show ?thesis using h d p by simp
qed

end
